theory Spec2Isabelle
  imports Main "HOL-Library.Sublist"
begin

section \<open>Orion decision: the scheduler of \<^verbatim>\<open>orion_decision/scheduler.py\<close>\<close>

subsection \<open>Values handed to the queue\<close>

text \<open>
  A task definition is a Python dict of strings, numbers, lists and dicts, sent as JSON.
  A dict is an association list in the order the literal is written; Python's \<open>None\<close>
  is \<open>JNull\<close>.
\<close>

datatype json =
  JNull
| JBool bool
| JNum int
| JStr string
| JList "json list"
| JObj "(string \<times> json) list"

fun jget :: "json \<Rightarrow> string \<Rightarrow> json option" where
  "jget (JObj kvs) k = map_of kvs k"
| "jget JNull k = None"
| "jget (JBool b) k = None"
| "jget (JNum n) k = None"
| "jget (JStr s) k = None"
| "jget (JList xs) k = None"

text \<open>\<open>jpath j ks\<close> follows a chain of keys, as \<open>j[k1][k2]...\<close> does.\<close>

fun jpath :: "json \<Rightarrow> string list \<Rightarrow> json option" where
  "jpath j [] = Some j"
| "jpath j (k # ks) = (case jget j k of None \<Rightarrow> None | Some j' \<Rightarrow> jpath j' ks)"

datatype error =
  TaskclusterFailure
| KeyError string
| ValueError
| CatalogError

datatype outcome = Returned | Raised error

subsection \<open>Python helpers\<close>

text \<open>\<open>str(n)\<close> for a non-negative integer.\<close>

fun str_nat :: "nat \<Rightarrow> string" where
  "str_nat n = (if n < 10 then [''0123456789'' ! n]
                else str_nat (n div 10) @ [''0123456789'' ! (n mod 10)])"

declare str_nat.simps [simp del]

text \<open>What an f-string prints for a value that may be \<open>None\<close>.\<close>

fun fmt_opt :: "string option \<Rightarrow> string" where
  "fmt_opt None = ''None''"
| "fmt_opt (Some s) = s"

fun json_opt :: "string option \<Rightarrow> json" where
  "json_opt None = JNull"
| "json_opt (Some s) = JStr s"

text \<open>\<open>needle in haystack\<close> on strings: some suffix of the haystack starts with the needle.\<close>

fun str_contains :: "string \<Rightarrow> string \<Rightarrow> bool" where
  "str_contains needle [] = (needle = [])"
| "str_contains needle (c # cs) = (prefix needle (c # cs) \<or> str_contains needle cs)"

text \<open>A \<open>pathlib.Path\<close> is its list of components.\<close>

type_synonym path = "string list"

definition relative_to :: "path \<Rightarrow> path \<Rightarrow> error + path" where
  "relative_to p other =
     (if prefix other p then Inr (drop (length other) p) else Inl ValueError)"

fun str_path :: "path \<Rightarrow> string" where
  "str_path [] = ''.''"
| "str_path [c] = c"
| "str_path (c # d # cs) = c @ ''/'' @ str_path (d # cs)"

text \<open>\<open>d[k]\<close> on a dict raises \<open>KeyError\<close> for a missing key.\<close>

definition getitem :: "(string \<times> 'v) list \<Rightarrow> string \<Rightarrow> error + 'v" where
  "getitem d k = (case map_of d k of None \<Rightarrow> Inl (KeyError k) | Some v \<Rightarrow> Inr v)"

subsection \<open>Constants of \<^verbatim>\<open>orion_decision/__init__.py\<close>\<close>

text \<open>
  \<open>timedelta(hours=h)\<close> and \<open>relativedelta(months=m)\<close>, the only forms the module
  builds. \<open>total_seconds()\<close> returns a float with an integral value, kept as an
  integer.
\<close>

datatype timedelta = Timedelta_hours int
datatype relativedelta = Relativedelta_months int

fun total_seconds :: "timedelta \<Rightarrow> int" where
  "total_seconds (Timedelta_hours h) = h * 3600"

definition OWNER_EMAIL :: string where "OWNER_EMAIL = ''truber@mozilla.com''"
definition SOURCE_URL :: string where "SOURCE_URL = ''https://github.com/MozillaSecurity/orion''"
definition PROVISIONER_ID :: string where "PROVISIONER_ID = ''proj-fuzzing''"
definition WORKER_TYPE :: string where "WORKER_TYPE = ''ci''"
definition DEADLINE :: timedelta where "DEADLINE = Timedelta_hours 2"
definition MAX_RUN_TIME :: timedelta where "MAX_RUN_TIME = Timedelta_hours 1"
definition ARTIFACTS_EXPIRE :: relativedelta where "ARTIFACTS_EXPIRE = Relativedelta_months 6"

subsection \<open>Data model\<close>

text \<open>
  A \<open>Service\<close> as the scheduler reads it: \<open>name\<close>, \<open>dockerfile\<close>, \<open>context\<close>
  (here \<open>context_dir\<close>), \<open>service_deps\<close> and the mutable \<open>dirty\<close> flag.
  \<open>Services\<close> is a dict from a service's name to the service; the model keeps its
  values in iteration order and finds a service by its name.
\<close>

record Service =
  name :: string
  dockerfile :: path
  context_dir :: path
  service_deps :: "string list"
  dirty :: bool

text \<open>
  The attributes of \<open>GithubEvent\<close> that the scheduler reads; the class itself is in
  \<^verbatim>\<open>orion_decision/git.py\<close>, which is not among the sources. \<open>branch\<close> may be
  \<open>None\<close>; \<open>pull_request\<close> is the number of the pull request, \<open>None\<close> unless the
  event is a pull request; \<open>list_changed_paths\<close> holds what the method of that name
  returns.
\<close>

record GithubEvent =
  branch :: "string option"
  pull_request :: "nat option"
  commit :: string
  commit_message :: string
  clone_url :: string
  list_changed_paths :: "path list"

record 't Scheduler =
  github_event :: GithubEvent
  now :: 't
  task_group :: string
  docker_secret :: "string option"
  push_branch :: string
  services :: "Service list"

text \<open>
  What lies outside the repository: the identifiers \<open>slugId()\<close> returns (the k-th call
  returns \<open>slugId h k\<close>), the date functions of the libraries on a type \<open>'t\<close> of
  instants, and the queue. \<open>createTask h past task_id task\<close> tells whether the queue
  accepts the call, given the calls it accepted before; \<open>False\<close> is a
  \<open>TaskclusterFailure\<close>.
\<close>

record 't host =
  slugId :: "nat \<Rightarrow> string"
  stringDate :: "'t \<Rightarrow> string"
  add_timedelta :: "'t \<Rightarrow> timedelta \<Rightarrow> 't"
  add_relativedelta :: "'t \<Rightarrow> relativedelta \<Rightarrow> 't"
  createTask :: "(string \<times> json) list \<Rightarrow> string \<Rightarrow> json \<Rightarrow> bool"

subsection \<open>\<open>Services.mark_changed_dirty\<close>\<close>

text \<open>
  Modelled from the spec: \<open>Services.mark_changed_dirty\<close> lives in
  \<^verbatim>\<open>orion_decision/orion.py\<close>, which is not among the sources. The definitions
  below follow section 4.2 of the specification (DirtinessPropagator). Step 1: for each
  changed path, the units owning it (the path lies under the unit's build context) are
  set dirty. Step 2: all units are scanned; a dirty unit marks its direct dependents
  (the units whose dependencies include its name); the scan is repeated until a full
  pass changes no unit.
\<close>

definition owns_path :: "Service \<Rightarrow> path \<Rightarrow> bool" where
  "owns_path u p = prefix (context_dir u) p"

definition unitsOwningPath :: "Service list \<Rightarrow> path \<Rightarrow> string list" where
  "unitsOwningPath cat p = map name (filter (\<lambda>u. owns_path u p) cat)"

definition set_dirty :: "string list \<Rightarrow> Service list \<Rightarrow> Service list" where
  "set_dirty ns cat = map (\<lambda>u. if name u \<in> set ns then u\<lparr>dirty := True\<rparr> else u) cat"

definition mark_owners :: "Service list \<Rightarrow> path list \<Rightarrow> Service list" where
  "mark_owners cat paths = fold (\<lambda>p c. set_dirty (unitsOwningPath c p) c) paths cat"

definition is_dirty :: "Service list \<Rightarrow> string \<Rightarrow> bool" where
  "is_dirty cat n = list_ex (\<lambda>u. name u = n \<and> dirty u) cat"

definition mark_dependents :: "string \<Rightarrow> Service list \<Rightarrow> Service list" where
  "mark_dependents n cat =
     map (\<lambda>v. if n \<in> set (service_deps v) then v\<lparr>dirty := True\<rparr> else v) cat"

definition scan_pass :: "Service list \<Rightarrow> Service list" where
  "scan_pass cat =
     fold (\<lambda>n c. if is_dirty c n then mark_dependents n c else c) (map name cat) cat"

text \<open>The number of units not yet dirty: what a pass that changes something decreases.\<close>

definition clean_count :: "Service list \<Rightarrow> nat" where
  "clean_count cat = length (filter (\<lambda>u. \<not> dirty u) cat)"

text \<open>\<open>grown a b\<close>: \<open>b\<close> is \<open>a\<close> with some more dirty flags set.\<close>

definition grown :: "Service list \<Rightarrow> Service list \<Rightarrow> bool" where
  "grown a b = list_all2 (\<lambda>u v. v = u \<or> (\<not> dirty u \<and> v = u\<lparr>dirty := True\<rparr>)) a b"

lemma grown_refl: "grown a a"
  by (simp add: grown_def list_all2_refl)

lemma grown_trans:
  assumes "grown a b" and "grown b c"
  shows "grown a c"
  using assms unfolding grown_def
  by (rule list_all2_trans[rotated]) auto

lemma grown_clean_count: "grown a b \<Longrightarrow> clean_count b \<le> clean_count a"
  unfolding grown_def clean_count_def
  by (induction rule: list_all2_induct) auto

lemma grown_changed: "grown a b \<Longrightarrow> b \<noteq> a \<Longrightarrow> clean_count b < clean_count a"
  unfolding grown_def clean_count_def
proof (induction rule: list_all2_induct)
  case Nil
  then show ?case by simp
next
  case (Cons u us v vs)
  have le: "length (filter (\<lambda>u. \<not> dirty u) vs) \<le> length (filter (\<lambda>u. \<not> dirty u) us)"
    using Cons.hyps(2) grown_clean_count[of us vs] by (simp add: grown_def clean_count_def)
  show ?case
  proof (cases "v = u")
    case True
    with Cons have "vs \<noteq> us" by simp
    with Cons.IH True show ?thesis by simp
  next
    case False
    with Cons.hyps(1) have "\<not> dirty u" "dirty v" by auto
    with le show ?thesis by simp
  qed
qed

lemma grown_map_mark:
  "grown cat (map (\<lambda>u. if P u then u\<lparr>dirty := True\<rparr> else u) cat)"
  unfolding grown_def
  by (induction cat) auto

lemma grown_mark_dependents: "grown cat (mark_dependents n cat)"
  unfolding mark_dependents_def by (rule grown_map_mark)

lemma grown_set_dirty: "grown cat (set_dirty ns cat)"
  unfolding set_dirty_def by (rule grown_map_mark)

lemma grown_fold:
  assumes "\<And>x c. grown c (f x c)"
  shows "grown cat (fold f xs cat)"
proof (induction xs arbitrary: cat)
  case Nil
  show ?case by (simp add: grown_refl)
next
  case (Cons x xs)
  have "grown cat (f x cat)" by (rule assms)
  moreover have "grown (f x cat) (fold f xs (f x cat))" by (rule Cons.IH)
  ultimately show ?case by (simp add: grown_trans)
qed

lemma grown_scan_pass: "grown cat (scan_pass cat)"
  unfolding scan_pass_def
  by (rule grown_fold) (simp add: grown_refl grown_mark_dependents)

lemma grown_mark_owners: "grown cat (mark_owners cat paths)"
  unfolding mark_owners_def
  by (rule grown_fold) (simp add: grown_set_dirty)

function propagate :: "Service list \<Rightarrow> Service list" where
  "propagate cat = (if scan_pass cat = cat then cat else propagate (scan_pass cat))"
  by pat_completeness auto
termination
  by (relation "measure clean_count") (auto intro: grown_changed grown_scan_pass)

declare propagate.simps [simp del]

definition mark_changed_dirty :: "Service list \<Rightarrow> path list \<Rightarrow> Service list" where
  "mark_changed_dirty cat changed_paths = propagate (mark_owners cat changed_paths)"

text \<open>\<open>(v, u) \<in> depends_on cat\<close>: the unit \<open>v\<close> of the catalog depends directly on its unit \<open>u\<close>.\<close>

definition depends_on :: "Service list \<Rightarrow> (Service \<times> Service) set" where
  "depends_on cat =
     {(v, u). v \<in> set cat \<and> u \<in> set cat \<and> name u \<in> set (service_deps v)}"

subsection \<open>\<open>Scheduler.mark_services_for_rebuild\<close>\<close>

definition mark_all_dirty :: "Service list \<Rightarrow> Service list" where
  "mark_all_dirty svcs = map (\<lambda>service. service\<lparr>dirty := True\<rparr>) svcs"

definition mark_services_for_rebuild :: "'t Scheduler \<Rightarrow> 't Scheduler" where
  "mark_services_for_rebuild s =
     (if str_contains ''/force-rebuild'' (commit_message (github_event s))
      then s\<lparr>services := mark_all_dirty (services s)\<rparr>
      else s\<lparr>services :=
               mark_changed_dirty (services s) (list_changed_paths (github_event s))\<rparr>)"

subsection \<open>\<open>Scheduler.create_tasks\<close>\<close>

definition should_push :: "'t Scheduler \<Rightarrow> bool" where
  "should_push s = (branch (github_event s) = Some (push_branch s))"

definition service_build_tasks :: "'t host \<Rightarrow> 't Scheduler \<Rightarrow> (string \<times> string) list" where
  "service_build_tasks h s =
     zip (map name (services s)) (map (slugId h) [0..<length (services s)])"

definition build_index :: "'t Scheduler \<Rightarrow> Service \<Rightarrow> string" where
  "build_index s service =
     (case pull_request (github_event s) of
        Some pr \<Rightarrow> ''index.project.fuzzing.orion.'' @ name service @ ''.pull_request.'' @ str_nat pr
      | None \<Rightarrow> ''index.project.fuzzing.orion.'' @ name service @ ''.''
                 @ fmt_opt (branch (github_event s)))"

definition services_getitem :: "Service list \<Rightarrow> string \<Rightarrow> error + Service" where
  "services_getitem svcs k =
     (case find (\<lambda>x. name x = k) svcs of None \<Rightarrow> Inl (KeyError k) | Some x \<Rightarrow> Inr x)"

fun dirty_dep_tasks ::
  "Service list \<Rightarrow> (string \<times> string) list \<Rightarrow> string list \<Rightarrow> error + string list" where
  "dirty_dep_tasks svcs sbt [] = Inr []"
| "dirty_dep_tasks svcs sbt (dep # deps) =
     (case services_getitem svcs dep of
        Inl e \<Rightarrow> Inl e
      | Inr d \<Rightarrow>
          if dirty d then
            (case getitem sbt dep of
               Inl e \<Rightarrow> Inl e
             | Inr t \<Rightarrow>
                 (case dirty_dep_tasks svcs sbt deps of
                    Inl e \<Rightarrow> Inl e
                  | Inr ts \<Rightarrow> Inr (t # ts)))
          else dirty_dep_tasks svcs sbt deps)"

definition build_task ::
  "'t host \<Rightarrow> 't Scheduler \<Rightarrow> Service \<Rightarrow> string list \<Rightarrow> path \<Rightarrow> json" where
  "build_task h s service deps df = JObj [
     (''taskGroupId'', JStr (task_group s)),
     (''dependencies'', JList (map JStr deps)),
     (''created'', JStr (stringDate h (now s))),
     (''deadline'', JStr (stringDate h (add_timedelta h (now s) DEADLINE))),
     (''provisionerId'', JStr PROVISIONER_ID),
     (''workerType'', JStr WORKER_TYPE),
     (''payload'', JObj [
        (''artifacts'', JObj [
           (''public/'' @ name service @ ''.tar'', JObj [
              (''expires'',
                 JStr (stringDate h (add_relativedelta h (now s) ARTIFACTS_EXPIRE))),
              (''path'', JStr ''/image.tar''),
              (''type'', JStr ''file'')])]),
        (''command'', JList [JStr ''build.sh'']),
        (''env'', JObj [
           (''IMAGE_NAME'', JStr (name service)),
           (''DOCKERFILE'', JStr (str_path df)),
           (''ARCHIVE_PATH'', JStr ''/image.tar''),
           (''GIT_REPOSITORY'', JStr (clone_url (github_event s))),
           (''GIT_REVISION'', JStr (commit (github_event s))),
           (''LOAD_DEPS'', JStr (if deps \<noteq> [] then ''1'' else ''0''))]),
        (''features'', JObj [(''privileged'', JBool True)]),
        (''image'', JStr ''mozillasecurity/taskboot:latest''),
        (''maxRunTime'', JNum (total_seconds MAX_RUN_TIME))]),
     (''routes'', JList [
        JStr (''index.project.fuzzing.orion.'' @ name service @ ''.rev.''
              @ commit (github_event s)),
        JStr (build_index s service)]),
     (''scopes'', JList [
        JStr ''docker-worker:capability:privileged'',
        JStr ''queue:route:index.project.fuzzing.orion.*'']),
     (''metadata'', JObj [
        (''description'',
           JStr (''Build the docker image for '' @ name service @ '' tasks'')),
        (''name'', JStr (''Orion '' @ name service @ '' docker build'')),
        (''owner'', JStr OWNER_EMAIL),
        (''source'', JStr SOURCE_URL)])]"

definition push_task :: "'t host \<Rightarrow> 't Scheduler \<Rightarrow> Service \<Rightarrow> string \<Rightarrow> json" where
  "push_task h s service build_id = JObj [
     (''taskGroupId'', JStr (task_group s)),
     (''dependencies'', JList [JStr build_id]),
     (''created'', JStr (stringDate h (now s))),
     (''deadline'', JStr (stringDate h (add_timedelta h (now s) DEADLINE))),
     (''provisionerId'', JStr PROVISIONER_ID),
     (''workerType'', JStr WORKER_TYPE),
     (''payload'', JObj [
        (''command'', JList [JStr ''taskboot'', JStr ''push-artifact'']),
        (''env'', JObj [(''TASKCLUSTER_SECRET'', json_opt (docker_secret s))]),
        (''features'', JObj [(''taskclusterProxy'', JBool True)]),
        (''image'', JStr ''mozillasecurity/taskboot:latest''),
        (''maxRunTime'', JNum (total_seconds MAX_RUN_TIME))]),
     (''scopes'', JList [JStr (''secrets:get:'' @ fmt_opt (docker_secret s))]),
     (''metadata'', JObj [
        (''description'',
           JStr (''Publish the docker image for '' @ name service @ '' tasks'')),
        (''name'', JStr (''Orion '' @ name service @ '' docker push'')),
        (''owner'', JStr OWNER_EMAIL),
        (''source'', JStr SOURCE_URL)])]"

text \<open>
  The state of one run of \<open>create_tasks\<close>: the creation calls attempted so far (oldest
  first), the number of identifiers drawn from \<open>slugId\<close>, and the two counters.
\<close>

record run_state =
  calls :: "(string \<times> json) list"
  drawn :: nat
  build_tasks_created :: nat
  push_tasks_created :: nat

text \<open>
  The body of the loop for one service. Each \<open>raise\<close> of the source ends the run:
  the \<open>KeyError\<close> of the two dict lookups, the \<open>ValueError\<close> of
  \<open>Path.relative_to\<close>, and the \<open>TaskclusterFailure\<close> that both handlers log and
  re-raise.
\<close>

definition create_service_tasks ::
  "'t host \<Rightarrow> 't Scheduler \<Rightarrow> (string \<times> string) list \<Rightarrow> Service \<Rightarrow> run_state
     \<Rightarrow> run_state \<times> outcome" where
  "create_service_tasks h s sbt service st =
     (if \<not> dirty service then (st, Returned)
      else case dirty_dep_tasks (services s) sbt (service_deps service) of
        Inl e \<Rightarrow> (st, Raised e)
      | Inr deps \<Rightarrow>
         (case relative_to (dockerfile service) (context_dir service) of
            Inl e \<Rightarrow> (st, Raised e)
          | Inr df \<Rightarrow>
             (case getitem sbt (name service) of
                Inl e \<Rightarrow> (st, Raised e)
              | Inr task_id \<Rightarrow>
                  let task = build_task h s service deps df;
                      st1 = st\<lparr>calls := calls st @ [(task_id, task)]\<rparr>
                  in if \<not> createTask h (calls st) task_id task
                     then (st1, Raised TaskclusterFailure)
                     else
                       let st2 = st1\<lparr>build_tasks_created := build_tasks_created st1 + 1\<rparr>
                       in if \<not> should_push s then (st2, Returned)
                          else
                            let ptask = push_task h s service task_id;
                                push_id = slugId h (drawn st2);
                                st3 = st2\<lparr>calls := calls st2 @ [(push_id, ptask)],
                                          drawn := drawn st2 + 1\<rparr>
                            in if \<not> createTask h (calls st2) push_id ptask
                               then (st3, Raised TaskclusterFailure)
                               else (st3\<lparr>push_tasks_created :=
                                            push_tasks_created st3 + 1\<rparr>, Returned))))"

fun create_loop ::
  "'t host \<Rightarrow> 't Scheduler \<Rightarrow> (string \<times> string) list \<Rightarrow> Service list \<Rightarrow> run_state
     \<Rightarrow> run_state \<times> outcome" where
  "create_loop h s sbt [] st = (st, Returned)"
| "create_loop h s sbt (service # rest) st =
     (case create_service_tasks h s sbt service st of
        (st', Returned) \<Rightarrow> create_loop h s sbt rest st'
      | (st', Raised e) \<Rightarrow> (st', Raised e))"

definition create_tasks :: "'t host \<Rightarrow> 't Scheduler \<Rightarrow> run_state \<times> outcome" where
  "create_tasks h s =
     create_loop h s (service_build_tasks h s) (services s)
       \<lparr>calls = [], drawn = length (services s),
        build_tasks_created = 0, push_tasks_created = 0\<rparr>"

subsection \<open>\<open>Scheduler.main\<close> and the entry point of \<^verbatim>\<open>cli.py\<close>\<close>

text \<open>
  The namespace \<open>parse_args\<close> returns. \<open>GithubEvent.from_taskcluster\<close> and the
  constructor of \<open>Services\<close> are not among the sources: both are parameters, and
  either may raise.
\<close>

record 't Namespace =
  log_level :: int
  args_task_group :: string
  args_push_branch :: string
  docker_hub_secret :: "string option"
  args_github_event :: json
  github_action :: string
  args_now :: 't
  dry_run :: bool

record loaders =
  from_taskcluster :: "string \<Rightarrow> json \<Rightarrow> error + GithubEvent"
  Services :: "GithubEvent \<Rightarrow> error + Service list"

text \<open>
  \<open>main\<close> returns the creation calls it attempted and either the shell return code or
  the exception that left it. \<open>evt.cleanup()\<close> in the \<open>finally\<close> clause removes
  the checkout and changes neither.
\<close>

definition main ::
  "'t host \<Rightarrow> loaders \<Rightarrow> 't Namespace \<Rightarrow> (string \<times> json) list \<times> (error + int)" where
  "main h l args =
     (case from_taskcluster l (github_action args) (args_github_event args) of
        Inl e \<Rightarrow> ([], Inl e)
      | Inr evt \<Rightarrow>
         (case Services l evt of
            Inl e \<Rightarrow> ([], Inl e)
          | Inr svcs \<Rightarrow>
              let sched = \<lparr>github_event = evt, now = args_now args,
                             task_group = args_task_group args,
                             docker_secret = docker_hub_secret args,
                             push_branch = args_push_branch args,
                             services = svcs\<rparr>;
                  sched = mark_services_for_rebuild sched;
                  run = create_tasks h sched
              in (case snd run of
                    Returned \<Rightarrow> (calls (fst run), Inr 0)
                  | Raised e \<Rightarrow> (calls (fst run), Inl e))))"

text \<open>
  \<open>cli.main\<close> passes the return code to \<open>sys.exit\<close>; an exception that leaves
  \<open>Scheduler.main\<close> ends the interpreter with status 1.
\<close>

definition cli_main ::
  "'t host \<Rightarrow> loaders \<Rightarrow> 't Namespace \<Rightarrow> (string \<times> json) list \<times> int" where
  "cli_main h l args =
     (let run = main h l args
      in (case snd run of
            Inr rc \<Rightarrow> (fst run, rc)
          | Inl e \<Rightarrow> (fst run, 1)))"

subsection \<open>The calls of a run\<close>

text \<open>
  The calls one dirty service contributes when nothing raises: its build task and, when
  pushing, its push task under the next identifier drawn. \<open>task_graph\<close> strings them
  together over the services. Both read the results of the lookups with \<open>projr\<close> and
  are used only where the lookups succeeded.
\<close>

definition unit_calls ::
  "'t host \<Rightarrow> 't Scheduler \<Rightarrow> (string \<times> string) list \<Rightarrow> Service \<Rightarrow> nat \<Rightarrow> (string \<times> json) list" where
  "unit_calls h s sbt u k =
     (let tid = projr (getitem sbt (name u));
          b = (tid, build_task h s u
                      (projr (dirty_dep_tasks (services s) sbt (service_deps u)))
                      (projr (relative_to (dockerfile u) (context_dir u))))
      in if should_push s then [b, (slugId h k, push_task h s u tid)] else [b])"

fun task_graph ::
  "'t host \<Rightarrow> 't Scheduler \<Rightarrow> (string \<times> string) list \<Rightarrow> Service list \<Rightarrow> nat \<Rightarrow> (string \<times> json) list" where
  "task_graph h s sbt [] k = []"
| "task_graph h s sbt (u # us) k =
     (if dirty u
      then unit_calls h s sbt u k @ task_graph h s sbt us (if should_push s then Suc k else k)
      else task_graph h s sbt us k)"

text \<open>
  The queue's answer to each call of a list, given the calls made before it.
\<close>

fun responses_from :: "'t host \<Rightarrow> (string \<times> json) list \<Rightarrow> (string \<times> json) list \<Rightarrow> bool list" where
  "responses_from h past [] = []"
| "responses_from h past (c # cs) =
     createTask h past (fst c) (snd c) # responses_from h (past @ [c]) cs"

definition responses :: "'t host \<Rightarrow> (string \<times> json) list \<Rightarrow> bool list" where
  "responses h cs = responses_from h [] cs"

definition is_build :: "json \<Rightarrow> bool" where
  "is_build t = (jpath t [''payload'', ''command''] = Some (JList [JStr ''build.sh'']))"

definition is_push :: "json \<Rightarrow> bool" where
  "is_push t =
     (jpath t [''payload'', ''command''] = Some (JList [JStr ''taskboot'', JStr ''push-artifact'']))"

text \<open>
  The three lookups made for a dirty service before its build task is created all
  succeed.
\<close>

definition lookups_ok :: "'t Scheduler \<Rightarrow> (string \<times> string) list \<Rightarrow> Service \<Rightarrow> bool" where
  "lookups_ok s sbt u =
     (\<not> isl (dirty_dep_tasks (services s) sbt (service_deps u)) \<and>
      \<not> isl (relative_to (dockerfile u) (context_dir u)) \<and>
      \<not> isl (getitem sbt (name u)))"

text \<open>
  A catalog as section 3 of the specification requires it: every dependency names a
  service of the catalog, and every Dockerfile lies under its build context.
\<close>

definition catalog_ok :: "Service list \<Rightarrow> bool" where
  "catalog_ok svcs =
     list_all (\<lambda>u. list_all (\<lambda>d. d \<in> set (map name svcs)) (service_deps u) \<and>
                  prefix (context_dir u) (dockerfile u)) svcs"

text \<open>The build call of a service whose lookups succeeded.\<close>

definition build_call ::
  "'t host \<Rightarrow> 't Scheduler \<Rightarrow> (string \<times> string) list \<Rightarrow> Service \<Rightarrow> string \<times> json" where
  "build_call h s sbt u =
     (projr (getitem sbt (name u)),
      build_task h s u (projr (dirty_dep_tasks (services s) sbt (service_deps u)))
        (projr (relative_to (dockerfile u) (context_dir u))))"

text \<open>
  The iteration order of the services lists every dirty service after the dirty services
  it depends on.
\<close>

definition deps_first :: "Service list \<Rightarrow> bool" where
  "deps_first svcs =
     (\<forall>j<length svcs. \<forall>i<length svcs.
        dirty (svcs ! i) \<and> dirty (svcs ! j) \<and> name (svcs ! i) \<in> set (service_deps (svcs ! j))
          \<longrightarrow> i < j)"

text \<open>
  Every dependency of every call of a list is an identifier of \<open>seen\<close> or the
  identifier of an earlier call of the list.
\<close>

fun deps_known :: "string set \<Rightarrow> (string \<times> json) list \<Rightarrow> bool" where
  "deps_known seen [] = True"
| "deps_known seen (c # cs) =
     ((\<forall>ds. jget (snd c) ''dependencies'' = Some (JList ds) \<longrightarrow> set ds \<subseteq> JStr ` seen) \<and>
      deps_known (insert (fst c) seen) cs)"

subsection \<open>Concrete inputs\<close>

text \<open>
  A queue that accepts every call, identifiers \<open>id0\<close>, \<open>id1\<close>, ... and instants
  counted in seconds; a queue that rejects the calls made under one identifier; a push
  event on \<open>master\<close> and services under \<open>services/\<close>.
\<close>

definition ex_host :: "nat host" where
  "ex_host = \<lparr>slugId = (\<lambda>k. ''id'' @ str_nat k), stringDate = str_nat,
       add_timedelta = (\<lambda>t d. t + nat (total_seconds d)),
       add_relativedelta = (\<lambda>t d. case d of Relativedelta_months m \<Rightarrow> t + nat m * 2592000),
       createTask = (\<lambda>past task_id task. True)\<rparr>"

definition ex_rejecting :: "string \<Rightarrow> nat host" where
  "ex_rejecting bad = ex_host\<lparr>createTask := (\<lambda>past task_id task. task_id \<noteq> bad)\<rparr>"

definition ex_service :: "string \<Rightarrow> string list \<Rightarrow> bool \<Rightarrow> Service" where
  "ex_service n deps d =
     \<lparr>name = n, dockerfile = [''services'', n, ''Dockerfile''],
      context_dir = [''services'', n], service_deps = deps, dirty = d\<rparr>"

definition ex_event :: GithubEvent where
  "ex_event = \<lparr>branch = Some ''master'', pull_request = None, commit = ''c0ffee'',
       commit_message = ''update a'', clone_url = ''https://example.org/orion.git'',
       list_changed_paths = [[''services'', ''a'', ''setup.sh'']]\<rparr>"

definition ex_sched :: "Service list \<Rightarrow> nat Scheduler" where
  "ex_sched svcs = \<lparr>github_event = ex_event, now = 1000, task_group = ''group'',
       docker_secret = Some ''project/fuzzing/docker-hub'', push_branch = ''master'',
       services = svcs\<rparr>"

definition ex_loaders :: loaders where
  "ex_loaders =
     \<lparr>from_taskcluster = (\<lambda>action event. Inr (ex_event\<lparr>commit_message := ''/force-rebuild''\<rparr>)),
      Services = (\<lambda>evt. Inr [ex_service ''a'' [] False, ex_service ''b'' [''a''] False])\<rparr>"

definition ex_args :: "nat Namespace" where
  "ex_args = \<lparr>log_level = 20, args_task_group = ''group'', args_push_branch = ''master'',
       docker_hub_secret = Some ''project/fuzzing/docker-hub'', args_github_event = JObj [],
       github_action = ''github-push'', args_now = 1000, dry_run = False\<rparr>"

definition ex_chain :: "Service list" where
  "ex_chain = [ex_service ''a'' [] False, ex_service ''b'' [''a''] False,
               ex_service ''c'' [''b''] False]"

lemmas ex_defs = ex_host_def ex_rejecting_def ex_service_def ex_event_def ex_sched_def
  ex_loaders_def ex_args_def

lemmas run_defs = cli_main_def main_def mark_services_for_rebuild_def create_tasks_def
  create_service_tasks_def service_build_tasks_def should_push_def getitem_def
  services_getitem_def relative_to_def mark_all_dirty_def Let_def

lemmas task_defs = build_task_def push_task_def build_index_def is_build_def is_push_def
  DEADLINE_def ARTIFACTS_EXPIRE_def MAX_RUN_TIME_def

section \<open>Properties\<close>

subsection \<open>One pass of the loop\<close>

lemma dirty_dep_tasks_error:
  "dirty_dep_tasks svcs sbt deps = Inl e \<Longrightarrow> \<exists>k. e = KeyError k"
  by (induction deps) (auto simp: services_getitem_def getitem_def split: option.splits sum.splits if_splits)

lemma relative_to_error: "relative_to p q = Inl e \<Longrightarrow> e = ValueError"
  by (auto simp: relative_to_def split: if_splits)

lemma getitem_error: "getitem d k = Inl e \<Longrightarrow> e = KeyError k"
  by (auto simp: getitem_def split: option.splits)

lemma step_clean:
  "\<not> dirty u \<Longrightarrow> create_service_tasks h s sbt u st = (st, Returned)"
  by (simp add: create_service_tasks_def)

lemma step_Returned:
  assumes "create_service_tasks h s sbt u st = (st', Returned)" and "dirty u"
  shows "calls st' = calls st @ unit_calls h s sbt u (drawn st)"
    and "drawn st' = (if should_push s then Suc (drawn st) else drawn st)"
    and "build_tasks_created st' = Suc (build_tasks_created st)"
    and "push_tasks_created st' = (if should_push s then Suc (push_tasks_created st) else push_tasks_created st)"
    and "responses_from h (calls st) (unit_calls h s sbt u (drawn st))
           = replicate (length (unit_calls h s sbt u (drawn st))) True"
  using assms
  by (auto simp: create_service_tasks_def unit_calls_def Let_def
           split: sum.splits if_splits)

lemma step_Raised:
  assumes "create_service_tasks h s sbt u st = (st', Raised e)"
  shows "dirty u"
    and "e \<noteq> TaskclusterFailure \<Longrightarrow> calls st' = calls st"
    and "e = TaskclusterFailure \<Longrightarrow>
           (calls st' = calls st @ take 1 (unit_calls h s sbt u (drawn st)) \<and>
            responses_from h (calls st) (take 1 (unit_calls h s sbt u (drawn st))) = [False])
         \<or> (should_push s \<and> calls st' = calls st @ unit_calls h s sbt u (drawn st) \<and>
            responses_from h (calls st) (unit_calls h s sbt u (drawn st)) = [True, False])"
  using assms
  by (auto simp: create_service_tasks_def unit_calls_def Let_def
           split: sum.splits if_splits
           dest: dirty_dep_tasks_error relative_to_error getitem_error)

lemma responses_from_append:
  "responses_from h past (a @ b) = responses_from h past a @ responses_from h (past @ a) b"
  by (induction a arbitrary: past) auto

lemma loop_Returned:
  "create_loop h s sbt xs st = (st', Returned) \<Longrightarrow>
     calls st' = calls st @ task_graph h s sbt xs (drawn st) \<and>
     responses_from h (calls st) (task_graph h s sbt xs (drawn st))
       = replicate (length (task_graph h s sbt xs (drawn st))) True"
proof (induction xs arbitrary: st)
  case Nil
  then show ?case by simp
next
  case (Cons u us)
  show ?case
  proof (cases "dirty u")
    case False
    with Cons show ?thesis by (simp add: step_clean)
  next
    case True
    from Cons.prems obtain st1 where
      1: "create_service_tasks h s sbt u st = (st1, Returned)" and
      2: "create_loop h s sbt us st1 = (st', Returned)"
      by (auto split: prod.splits outcome.splits)
    note S = step_Returned[OF 1 True]
    from Cons.IH[OF 2] S True show ?thesis
      by (simp add: responses_from_append replicate_add)
  qed
qed

lemma loop_Returned_counts:
  "create_loop h s sbt xs st = (st', Returned) \<Longrightarrow>
     build_tasks_created st' = build_tasks_created st + length (filter dirty xs) \<and>
     push_tasks_created st' =
       push_tasks_created st + (if should_push s then length (filter dirty xs) else 0)"
proof (induction xs arbitrary: st)
  case Nil
  then show ?case by simp
next
  case (Cons u us)
  show ?case
  proof (cases "dirty u")
    case False
    with Cons show ?thesis by (simp add: step_clean)
  next
    case True
    from Cons.prems obtain st1 where
      1: "create_service_tasks h s sbt u st = (st1, Returned)" and
      2: "create_loop h s sbt us st1 = (st', Returned)"
      by (auto split: prod.splits outcome.splits)
    note S = step_Returned[OF 1 True]
    from Cons.IH[OF 2] S True show ?thesis by simp
  qed
qed

text \<open>Whatever the outcome, the calls attempted are an initial part of the task graph.\<close>

lemma loop_trace:
  "create_loop h s sbt xs st = (st', out) \<Longrightarrow>
     \<exists>n. calls st' = calls st @ take n (task_graph h s sbt xs (drawn st))"
proof (induction xs arbitrary: st)
  case Nil
  then show ?case by simp
next
  case (Cons u us)
  show ?case
  proof (cases "dirty u")
    case False
    with Cons show ?thesis by (simp add: step_clean)
  next
    case True
    obtain st1 o1 where 1: "create_service_tasks h s sbt u st = (st1, o1)"
      by (cases "create_service_tasks h s sbt u st")
    let ?uc = "unit_calls h s sbt u (drawn st)"
    let ?k = "if should_push s then Suc (drawn st) else drawn st"
    have tg: "task_graph h s sbt (u # us) (drawn st) = ?uc @ task_graph h s sbt us ?k"
      using True by simp
    show ?thesis
    proof (cases o1)
      case Returned
      with 1 Cons.prems have 2: "create_loop h s sbt us st1 = (st', out)" by simp
      from Cons.IH[OF 2] obtain n where
        n: "calls st' = calls st1 @ take n (task_graph h s sbt us (drawn st1))" by blast
      note S = step_Returned[OF 1[unfolded Returned] True]
      have "calls st' = calls st @ take (length ?uc + n) (task_graph h s sbt (u # us) (drawn st))"
        unfolding tg using n S by simp
      then show ?thesis by blast
    next
      case (Raised e)
      with 1 Cons.prems have eq: "st' = st1" by simp
      note R = step_Raised[OF 1[unfolded Raised]]
      have "\<exists>m. calls st1 = calls st @ take m ?uc"
      proof (cases "e = TaskclusterFailure")
        case True
        with R(3) show ?thesis by (metis take_all order_refl)
      next
        case False
        with R(2) have "calls st1 = calls st @ take 0 ?uc" by simp
        then show ?thesis by blast
      qed
      then obtain m where m: "calls st1 = calls st @ take m ?uc" by blast
      have "calls st' = calls st @ take (min m (length ?uc)) (task_graph h s sbt (u # us) (drawn st))"
        unfolding tg using m eq by (simp add: min_def)
      then show ?thesis by blast
    qed
  qed
qed

text \<open>
  The queue's answers along a run: every call but the last was accepted, and the last
  was rejected exactly when the run ends in \<open>TaskclusterFailure\<close>.
\<close>

lemma loop_responses:
  "create_loop h s sbt xs st = (st', out) \<Longrightarrow>
     \<exists>new. calls st' = calls st @ new \<and>
       (if out = Raised TaskclusterFailure
        then new \<noteq> [] \<and>
             responses_from h (calls st) new = replicate (length new - 1) True @ [False]
        else responses_from h (calls st) new = replicate (length new) True)"
proof (induction xs arbitrary: st)
  case Nil
  then show ?case by simp
next
  case (Cons u us)
  show ?case
  proof (cases "dirty u")
    case False
    with Cons show ?thesis by (simp add: step_clean)
  next
    case True
    obtain st1 o1 where 1: "create_service_tasks h s sbt u st = (st1, o1)"
      by (cases "create_service_tasks h s sbt u st")
    let ?uc = "unit_calls h s sbt u (drawn st)"
    show ?thesis
    proof (cases o1)
      case Returned
      with 1 Cons.prems have 2: "create_loop h s sbt us st1 = (st', out)" by simp
      from Cons.IH[OF 2] obtain new where
        n: "calls st' = calls st1 @ new"
           "if out = Raised TaskclusterFailure
            then new \<noteq> [] \<and>
                 responses_from h (calls st1) new = replicate (length new - 1) True @ [False]
            else responses_from h (calls st1) new = replicate (length new) True"
        by blast
      note S = step_Returned[OF 1[unfolded Returned] True]
      have a: "calls st' = calls st @ (?uc @ new)" using n(1) S(1) by simp
      have b: "responses_from h (calls st) (?uc @ new)
                 = replicate (length ?uc) True @ responses_from h (calls st1) new"
        using S(1,5) by (simp add: responses_from_append)
      show ?thesis
      proof (cases "out = Raised TaskclusterFailure")
        case T: True
        with n(2) have "new \<noteq> []"
          "responses_from h (calls st1) new = replicate (length new - 1) True @ [False]"
          by auto
        with b have "responses_from h (calls st) (?uc @ new)
                 = replicate (length (?uc @ new) - 1) True @ [False]"
          by (cases new) (simp_all add: replicate_add[symmetric] del: replicate_add)
        with a T \<open>new \<noteq> []\<close> show ?thesis
          by (intro exI[of _ "?uc @ new"]) simp
      next
        case F: False
        with n(2) b have "responses_from h (calls st) (?uc @ new)
                 = replicate (length (?uc @ new)) True"
          by (simp add: replicate_add)
        with a F show ?thesis by (intro exI[of _ "?uc @ new"]) simp
      qed
    next
      case (Raised e)
      with 1 Cons.prems have eq: "st' = st1" "out = Raised e" by simp_all
      note R = step_Raised[OF 1[unfolded Raised]]
      show ?thesis
      proof (cases "e = TaskclusterFailure")
        case T: True
        from R(3)[OF T] show ?thesis
        proof
          assume A: "calls st1 = calls st @ take 1 ?uc \<and>
                  responses_from h (calls st) (take 1 ?uc) = [False]"
          then have "take 1 ?uc \<noteq> []" by auto
          with A eq T show ?thesis
            by (intro exI[of _ "take 1 ?uc"]) (auto simp: unit_calls_def Let_def)
        next
          assume A: "should_push s \<and> calls st1 = calls st @ ?uc \<and>
                  responses_from h (calls st) ?uc = [True, False]"
          then have "length ?uc = 2" by (simp add: unit_calls_def Let_def)
          with A eq T show ?thesis
            by (intro exI[of _ "?uc"]) auto
        qed
      next
        case False
        with R(2) eq show ?thesis by (intro exI[of _ "[]"]) simp
      qed
    qed
  qed
qed

lemma step_Returned_ok:
  "create_service_tasks h s sbt u st = (st', Returned) \<Longrightarrow> dirty u \<Longrightarrow> lookups_ok s sbt u"
  by (auto simp: create_service_tasks_def lookups_ok_def Let_def split: sum.splits if_splits)

lemma step_Failure_ok:
  "create_service_tasks h s sbt u st = (st', Raised TaskclusterFailure) \<Longrightarrow> lookups_ok s sbt u"
  by (auto simp: create_service_tasks_def lookups_ok_def Let_def split: sum.splits if_splits
           dest: dirty_dep_tasks_error relative_to_error getitem_error)

text \<open>
  Whatever the outcome, the calls of a run are an initial part of the task graph of the
  services handled before the run ended, and the lookups of those services succeeded.
\<close>

lemma loop_decompose:
  "create_loop h s sbt xs st = (st', out) \<Longrightarrow>
     \<exists>ys n. prefix ys xs \<and> (\<forall>u\<in>set ys. dirty u \<longrightarrow> lookups_ok s sbt u) \<and>
            calls st' = calls st @ take n (task_graph h s sbt ys (drawn st)) \<and>
            (out = Returned \<longrightarrow> ys = xs)"
proof (induction xs arbitrary: st)
  case Nil
  then show ?case by simp
next
  case (Cons u us)
  show ?case
  proof (cases "dirty u")
    case False
    with Cons.prems have "create_loop h s sbt us st = (st', out)" by (simp add: step_clean)
    from Cons.IH[OF this] obtain ys n where
      ys: "prefix ys us" "\<forall>u\<in>set ys. dirty u \<longrightarrow> lookups_ok s sbt u"
          "calls st' = calls st @ take n (task_graph h s sbt ys (drawn st))"
          "out = Returned \<longrightarrow> ys = us"
      by blast
    with False show ?thesis
      by (intro exI[of _ "u # ys"] exI[of _ n]) simp
  next
    case True
    obtain st1 o1 where 1: "create_service_tasks h s sbt u st = (st1, o1)"
      by (cases "create_service_tasks h s sbt u st")
    let ?uc = "unit_calls h s sbt u (drawn st)"
    let ?k = "if should_push s then Suc (drawn st) else drawn st"
    show ?thesis
    proof (cases o1)
      case Returned
      with 1 Cons.prems have 2: "create_loop h s sbt us st1 = (st', out)" by simp
      note S = step_Returned[OF 1[unfolded Returned] True]
      have ok: "lookups_ok s sbt u" using 1 Returned True by (simp add: step_Returned_ok)
      from Cons.IH[OF 2] obtain ys n where
        ys: "prefix ys us" "\<forall>u\<in>set ys. dirty u \<longrightarrow> lookups_ok s sbt u"
            "calls st' = calls st1 @ take n (task_graph h s sbt ys (drawn st1))"
            "out = Returned \<longrightarrow> ys = us"
        by blast
      have "calls st' = calls st @ take (length ?uc + n) (task_graph h s sbt (u # ys) (drawn st))"
        using ys(3) S True by simp
      then show ?thesis using ys(1,2,4) ok
        by (intro exI[of _ "u # ys"] exI[of _ "length ?uc + n"]) simp
    next
      case (Raised e)
      with 1 Cons.prems have eq: "st' = st1" "out = Raised e" by simp_all
      note R = step_Raised[OF 1[unfolded Raised]]
      show ?thesis
      proof (cases "e = TaskclusterFailure")
        case T: True
        have ok: "lookups_ok s sbt u" using 1 Raised T by (simp add: step_Failure_ok)
        from R(3)[OF T] obtain m where "calls st1 = calls st @ take m ?uc"
          by (metis take_all order_refl)
        then have "calls st' = calls st @ take m (task_graph h s sbt [u] (drawn st))"
          using eq True by simp
        with ok eq show ?thesis
          by (intro exI[of _ "[u]"] exI[of _ m]) simp
      next
        case False
        with R(2) eq show ?thesis
          by (intro exI[of _ "[]"] exI[of _ 0]) simp
      qed
    qed
  qed
qed

subsection \<open>Shape of the calls\<close>

lemma is_build_build_task [simp]: "is_build (build_task h s u deps df)"
  by (simp add: is_build_def build_task_def)

lemma is_push_build_task [simp]: "\<not> is_push (build_task h s u deps df)"
  by (simp add: is_push_def build_task_def)

lemma is_push_push_task [simp]: "is_push (push_task h s u tid)"
  by (simp add: is_push_def push_task_def)

lemma is_build_push_task [simp]: "\<not> is_build (push_task h s u tid)"
  by (simp add: is_build_def push_task_def)

lemma task_graph_member:
  "c \<in> set (task_graph h s sbt ys k) \<Longrightarrow>
     \<exists>u\<in>set ys. dirty u \<and>
       ((\<exists>deps df. c = (projr (getitem sbt (name u)), build_task h s u deps df)) \<or>
        (should_push s \<and> (\<exists>j. c = (slugId h j, push_task h s u (projr (getitem sbt (name u)))))))"
proof (induction ys arbitrary: k)
  case Nil
  then show ?case by simp
next
  case (Cons u us)
  show ?case
  proof (cases "dirty u")
    case False
    with Cons show ?thesis by auto
  next
    case True
    from Cons.prems True
    consider "c \<in> set (unit_calls h s sbt u k)"
      | "c \<in> set (task_graph h s sbt us (if should_push s then Suc k else k))"
      by auto
    then show ?thesis
    proof cases
      case 1
      with True show ?thesis
        by (auto simp: unit_calls_def Let_def split: if_splits)
    next
      case 2
      from Cons.IH[OF 2] show ?thesis by auto
    qed
  qed
qed

lemma run_calls_member:
  assumes "c \<in> set (calls (fst (create_tasks h s)))"
  shows "\<exists>u\<in>set (services s). dirty u \<and>
       ((\<exists>deps df tid. c = (tid, build_task h s u deps df)) \<or>
        (should_push s \<and> (\<exists>tid bid. c = (tid, push_task h s u bid))))"
proof -
  obtain st out where run: "create_tasks h s = (st, out)" by (cases "create_tasks h s")
  from loop_trace[OF run[unfolded create_tasks_def]] obtain n where
    "calls st = take n (task_graph h s (service_build_tasks h s) (services s) (length (services s)))"
    by auto
  with assms run have "c \<in> set (task_graph h s (service_build_tasks h s) (services s) (length (services s)))"
    by (auto dest: in_set_takeD)
  from task_graph_member[OF this] show ?thesis by blast
qed

lemma run_Returned_calls:
  assumes "snd (create_tasks h s) = Returned"
  shows "calls (fst (create_tasks h s)) =
           task_graph h s (service_build_tasks h s) (services s) (length (services s))"
proof -
  obtain st where run: "create_tasks h s = (st, Returned)"
    using assms by (cases "create_tasks h s") simp
  from loop_Returned[OF run[unfolded create_tasks_def]] run show ?thesis by simp
qed

lemma task_graph_pairs:
  assumes "should_push s"
  shows "length (task_graph h s sbt xs k) = 2 * length (filter dirty xs) \<and>
     (\<forall>i<length (filter dirty xs).
        (\<exists>deps df. task_graph h s sbt xs k ! (2 * i) =
            (projr (getitem sbt (name (filter dirty xs ! i))),
             build_task h s (filter dirty xs ! i) deps df)) \<and>
        (\<exists>j. task_graph h s sbt xs k ! (2 * i + 1) =
            (slugId h j, push_task h s (filter dirty xs ! i)
                           (projr (getitem sbt (name (filter dirty xs ! i)))))))"
proof (induction xs arbitrary: k)
  case Nil
  show ?case by simp
next
  case (Cons u us)
  show ?case
  proof (cases "dirty u")
    case False
    with Cons show ?thesis by simp
  next
    case True
    let ?tg = "task_graph h s sbt us (Suc k)"
    let ?b = "(projr (getitem sbt (name u)),
               build_task h s u (projr (dirty_dep_tasks (services s) sbt (service_deps u)))
                 (projr (relative_to (dockerfile u) (context_dir u))))"
    let ?p = "(slugId h k, push_task h s u (projr (getitem sbt (name u))))"
    have tg: "task_graph h s sbt (u # us) k = ?b # ?p # ?tg"
      using True assms by (simp add: unit_calls_def Let_def)
    have D: "filter dirty (u # us) = u # filter dirty us" using True by simp
    note IH = Cons.IH[of "Suc k"]
    show ?thesis unfolding tg D
    proof (intro conjI allI impI)
      show "length (?b # ?p # ?tg) = 2 * length (u # filter dirty us)"
        using IH by simp
    next
      fix i assume "i < length (u # filter dirty us)"
      then show "\<exists>deps df. (?b # ?p # ?tg) ! (2 * i) =
            (projr (getitem sbt (name ((u # filter dirty us) ! i))),
             build_task h s ((u # filter dirty us) ! i) deps df)"
        using IH by (cases i) auto
    next
      fix i assume "i < length (u # filter dirty us)"
      then show "\<exists>j. (?b # ?p # ?tg) ! (2 * i + 1) =
            (slugId h j, push_task h s ((u # filter dirty us) ! i)
                           (projr (getitem sbt (name ((u # filter dirty us) ! i)))))"
        using IH by (cases i) auto
    qed
  qed
qed

lemma task_graph_push_count:
  "length (filter (\<lambda>c. is_push (snd c)) (task_graph h s sbt xs k)) =
     (if should_push s then length (filter dirty xs) else 0)"
  by (induction xs arbitrary: k) (auto simp: unit_calls_def Let_def)

subsection \<open>Runs against a queue that accepts every call\<close>

lemma getitem_build_tasks:
  "n \<in> set (map name (services s)) \<Longrightarrow> \<not> isl (getitem (service_build_tasks h s) n)"
  by (auto simp: getitem_def service_build_tasks_def map_of_zip_is_None split: option.splits)

lemma services_getitem_ok:
  "n \<in> set (map name svcs) \<Longrightarrow> \<not> isl (services_getitem svcs n)"
  by (auto simp: services_getitem_def find_None_iff split: option.splits)

lemma dirty_dep_tasks_ok:
  "\<forall>d\<in>set deps. \<not> isl (services_getitem svcs d) \<and> \<not> isl (getitem sbt d) \<Longrightarrow>
     \<not> isl (dirty_dep_tasks svcs sbt deps)"
  by (induction deps) (auto split: sum.splits)

lemma catalog_ok_lookups:
  assumes "catalog_ok (services s)" and "u \<in> set (services s)"
  shows "lookups_ok s (service_build_tasks h s) u"
proof -
  from assms have deps: "\<forall>d\<in>set (service_deps u). d \<in> set (map name (services s))"
    and df: "prefix (context_dir u) (dockerfile u)"
    by (auto simp: catalog_ok_def list_all_iff)
  have "\<not> isl (dirty_dep_tasks (services s) (service_build_tasks h s) (service_deps u))"
    using deps by (intro dirty_dep_tasks_ok) (simp add: services_getitem_ok getitem_build_tasks)
  moreover have "\<not> isl (relative_to (dockerfile u) (context_dir u))"
    using df by (simp add: relative_to_def)
  moreover have "\<not> isl (getitem (service_build_tasks h s) (name u))"
    using assms(2) by (intro getitem_build_tasks) simp
  ultimately show ?thesis by (simp add: lookups_ok_def)
qed

lemma step_accepting:
  assumes "\<forall>past tid t. createTask h past tid t" and "lookups_ok s sbt u"
  shows "snd (create_service_tasks h s sbt u st) = Returned"
  using assms
  by (auto simp: create_service_tasks_def lookups_ok_def Let_def split: sum.splits)

lemma loop_accepting:
  assumes "\<forall>past tid t. createTask h past tid t"
    and "\<forall>u\<in>set xs. lookups_ok s sbt u"
  shows "snd (create_loop h s sbt xs st) = Returned"
  using assms(2)
proof (induction xs arbitrary: st)
  case Nil
  show ?case by simp
next
  case (Cons u us)
  obtain st1 o1 where 1: "create_service_tasks h s sbt u st = (st1, o1)"
    by (cases "create_service_tasks h s sbt u st")
  with step_accepting[OF assms(1), of s sbt u st] Cons.prems have "o1 = Returned" by simp
  with 1 Cons show ?case by simp
qed

lemma accepting_run_returns:
  assumes "\<forall>past tid t. createTask h past tid t" and "catalog_ok (services s)"
  shows "snd (create_tasks h s) = Returned"
  unfolding create_tasks_def
  by (rule loop_accepting[OF assms(1)]) (simp add: catalog_ok_lookups[OF assms(2)])

subsection \<open>Dependencies of a build task\<close>

lemma task_graph_builds:
  "filter (\<lambda>c. is_build (snd c)) (task_graph h s sbt xs k) =
     map (build_call h s sbt) (filter dirty xs)"
  by (induction xs arbitrary: k) (auto simp: unit_calls_def build_call_def Let_def)

lemma image_Cons_split:
  "{f d | d. d \<in> set (x # xs) \<and> P d} =
     (if P x then {f x} else {}) \<union> {f d | d. d \<in> set xs \<and> P d}"
  by auto

lemma dirty_dep_tasks_set:
  "dirty_dep_tasks svcs sbt deps = Inr ts \<Longrightarrow>
     set ts = {projr (getitem sbt d) | d. d \<in> set deps \<and>
                 (\<exists>x. services_getitem svcs d = Inr x \<and> dirty x)}"
proof (induction deps arbitrary: ts)
  case Nil
  then show ?case by simp
next
  case (Cons d deps)
  from Cons.prems obtain x where x: "services_getitem svcs d = Inr x"
    by (auto split: sum.splits)
  show ?case
  proof (cases "dirty x")
    case True
    with Cons.prems x obtain t ts' where
      t: "getitem sbt d = Inr t" and ts': "dirty_dep_tasks svcs sbt deps = Inr ts'"
      and ts: "ts = t # ts'"
      by (auto split: sum.splits)
    have "set ts = {projr (getitem sbt d)} \<union> set ts'" using t ts by simp
    with Cons.IH[OF ts'] x True show ?thesis
      unfolding image_Cons_split by simp
  next
    case False
    with Cons.prems x have "dirty_dep_tasks svcs sbt deps = Inr ts" by simp
    from Cons.IH[OF this] x False show ?thesis
      unfolding image_Cons_split by simp
  qed
qed

lemma find_distinct_name:
  "distinct (map name svcs) \<Longrightarrow> v \<in> set svcs \<Longrightarrow> find (\<lambda>x. name x = name v) svcs = Some v"
  by (induction svcs) auto

lemma dirty_dependency_iff:
  assumes "distinct (map name svcs)"
  shows "(\<exists>x. services_getitem svcs d = Inr x \<and> dirty x) \<longleftrightarrow>
         (\<exists>v\<in>set svcs. dirty v \<and> name v = d)"
proof
  assume "\<exists>x. services_getitem svcs d = Inr x \<and> dirty x"
  then obtain x where "find (\<lambda>x. name x = d) svcs = Some x" "dirty x"
    by (auto simp: services_getitem_def split: option.splits)
  then show "\<exists>v\<in>set svcs. dirty v \<and> name v = d"
    by (auto simp: find_Some_iff)
next
  assume "\<exists>v\<in>set svcs. dirty v \<and> name v = d"
  then obtain v where v: "v \<in> set svcs" "dirty v" "name v = d" by blast
  from find_distinct_name[OF assms v(1)] v show "\<exists>x. services_getitem svcs d = Inr x \<and> dirty x"
    by (auto simp: services_getitem_def)
qed

lemma build_call_dependencies:
  assumes ok: "lookups_ok s sbt u" and dist: "distinct (map name (services s))"
  shows "\<exists>ds. jget (snd (build_call h s sbt u)) ''dependencies'' = Some (JList ds) \<and>
           set ds = {JStr (fst (build_call h s sbt v)) | v.
                       v \<in> set (services s) \<and> dirty v \<and> name v \<in> set (service_deps u)} \<and>
           jpath (snd (build_call h s sbt u)) [''payload'', ''env'', ''LOAD_DEPS'']
             = Some (JStr (if ds \<noteq> [] then ''1'' else ''0''))"
proof -
  from ok obtain ts where ts: "dirty_dep_tasks (services s) sbt (service_deps u) = Inr ts"
    by (cases "dirty_dep_tasks (services s) sbt (service_deps u)") (auto simp: lookups_ok_def)
  have "set ts = {projr (getitem sbt d) | d. d \<in> set (service_deps u) \<and>
                 (\<exists>v\<in>set (services s). dirty v \<and> name v = d)}"
    using dirty_dep_tasks_set[OF ts] by (simp add: dirty_dependency_iff[OF dist])
  also have "\<dots> = {fst (build_call h s sbt v) | v.
                       v \<in> set (services s) \<and> dirty v \<and> name v \<in> set (service_deps u)}"
    by (auto simp: build_call_def)
  finally have "set (map JStr ts) = {JStr (fst (build_call h s sbt v)) | v.
                       v \<in> set (services s) \<and> dirty v \<and> name v \<in> set (service_deps u)}"
    by auto
  moreover have "jget (snd (build_call h s sbt u)) ''dependencies'' = Some (JList (map JStr ts))"
    by (simp add: build_call_def build_task_def ts)
  moreover have "jpath (snd (build_call h s sbt u)) [''payload'', ''env'', ''LOAD_DEPS'']
             = Some (JStr (if map JStr ts \<noteq> [] then ''1'' else ''0''))"
    by (simp add: build_call_def build_task_def ts)
  ultimately show ?thesis by blast
qed

lemma run_Returned_ok:
  assumes "snd (create_tasks h s) = Returned" and "u \<in> set (services s)" and "dirty u"
  shows "lookups_ok s (service_build_tasks h s) u"
proof -
  obtain st where run: "create_tasks h s = (st, Returned)"
    using assms(1) by (cases "create_tasks h s") simp
  from loop_decompose[OF run[unfolded create_tasks_def]] assms(2,3) show ?thesis by auto
qed

lemma task_graph_member_call:
  "c \<in> set (task_graph h s sbt ys k) \<Longrightarrow>
     \<exists>u\<in>set ys. dirty u \<and>
       (c = build_call h s sbt u \<or>
        (should_push s \<and> (\<exists>j. c = (slugId h j, push_task h s u (fst (build_call h s sbt u))))))"
proof (induction ys arbitrary: k)
  case Nil
  then show ?case by simp
next
  case (Cons u us)
  show ?case
  proof (cases "dirty u")
    case False
    with Cons show ?thesis by auto
  next
    case True
    from Cons.prems True
    consider "c \<in> set (unit_calls h s sbt u k)"
      | "c \<in> set (task_graph h s sbt us (if should_push s then Suc k else k))"
      by auto
    then show ?thesis
    proof cases
      case 1
      with True show ?thesis
        by (auto simp: unit_calls_def build_call_def Let_def split: if_splits)
    next
      case 2
      from Cons.IH[OF 2] show ?thesis by auto
    qed
  qed
qed

subsection \<open>Order of the calls\<close>

lemma deps_known_append:
  "deps_known seen (a @ b) = (deps_known seen a \<and> deps_known (seen \<union> fst ` set a) b)"
  by (induction a arbitrary: seen) (auto simp: insert_commute)

lemma deps_known_take: "deps_known seen cs \<Longrightarrow> deps_known seen (take n cs)"
  by (induction cs arbitrary: seen n) (auto simp: take_Cons split: nat.splits)

lemma deps_known_nth:
  "deps_known seen cs \<Longrightarrow> j < length cs \<Longrightarrow>
   jget (snd (cs ! j)) ''dependencies'' = Some (JList ds) \<Longrightarrow> JStr d \<in> set ds \<Longrightarrow>
     d \<in> seen \<or> (\<exists>i<j. fst (cs ! i) = d)"
proof (induction cs arbitrary: seen j)
  case Nil
  then show ?case by simp
next
  case (Cons c cs)
  show ?case
  proof (cases j)
    case 0
    with Cons.prems show ?thesis by auto
  next
    case (Suc j')
    with Cons.prems have "deps_known (insert (fst c) seen) cs" "j' < length cs"
      "jget (snd (cs ! j')) ''dependencies'' = Some (JList ds)"
      by simp_all
    from Cons.IH[OF this Cons.prems(4)]
    have "d = fst c \<or> d \<in> seen \<or> (\<exists>i<j'. fst (cs ! i) = d)" by auto
    then show ?thesis
    proof (elim disjE)
      assume "d = fst c"
      then have "fst ((c # cs) ! 0) = d" by simp
      with Suc show ?thesis by blast
    next
      assume "d \<in> seen" then show ?thesis ..
    next
      assume "\<exists>i<j'. fst (cs ! i) = d"
      then obtain i where "i < j'" "fst (cs ! i) = d" by blast
      then have "Suc i < j" "fst ((c # cs) ! Suc i) = d" using Suc by simp_all
      then show ?thesis by blast
    qed
  qed
qed

lemma build_call_deps_seen:
  assumes order: "deps_first (services s)"
    and split: "services s = pre @ u # post"
    and u: "dirty u" "lookups_ok s sbt u"
    and seen: "\<forall>v\<in>set pre. dirty v \<longrightarrow> fst (build_call h s sbt v) \<in> seen"
    and ds: "jget (snd (build_call h s sbt u)) ''dependencies'' = Some (JList ds)"
  shows "set ds \<subseteq> JStr ` seen"
proof
  fix x assume x: "x \<in> set ds"
  from u(2) obtain ts where ts: "dirty_dep_tasks (services s) sbt (service_deps u) = Inr ts"
    by (cases "dirty_dep_tasks (services s) sbt (service_deps u)") (auto simp: lookups_ok_def)
  from ds have "ds = map JStr ts" by (simp add: build_call_def build_task_def ts)
  with x obtain t where t: "t \<in> set ts" "x = JStr t" by auto
  from t(1) dirty_dep_tasks_set[OF ts] obtain d w where
    d: "d \<in> set (service_deps u)" "t = projr (getitem sbt d)" and
    w: "services_getitem (services s) d = Inr w" "dirty w"
    by auto
  from w(1) have "find (\<lambda>x. name x = d) (services s) = Some w"
    by (auto simp: services_getitem_def split: option.splits)
  then obtain i where i: "i < length (services s)" "services s ! i = w" "name w = d"
    by (auto simp: find_Some_iff)
  let ?j = "length pre"
  have j: "?j < length (services s)" "services s ! ?j = u" using split by simp_all
  from order i j u(1) w(2) d(1) have "i < ?j"
    unfolding deps_first_def by blast
  then have "w = pre ! i" using i(2) split by (simp add: nth_append)
  with \<open>i < ?j\<close> have "w \<in> set pre" by simp
  with seen w(2) have "fst (build_call h s sbt w) \<in> seen" by blast
  then have "t \<in> seen" using d(2) i(3) by (simp add: build_call_def)
  with t(2) show "x \<in> JStr ` seen" by blast
qed

lemma task_graph_deps_known:
  assumes order: "deps_first (services s)"
  shows "services s = pre @ ys @ post \<Longrightarrow>
         \<forall>u\<in>set ys. dirty u \<longrightarrow> lookups_ok s sbt u \<Longrightarrow>
         \<forall>v\<in>set pre. dirty v \<longrightarrow> fst (build_call h s sbt v) \<in> seen \<Longrightarrow>
         deps_known seen (task_graph h s sbt ys k)"
proof (induction ys arbitrary: pre seen k)
  case Nil
  show ?case by simp
next
  case (Cons u us)
  have split': "services s = (pre @ [u]) @ us @ post" using Cons.prems(1) by simp
  show ?case
  proof (cases "dirty u")
    case False
    have "deps_known seen (task_graph h s sbt us k)"
      using Cons.prems(2,3) False by (intro Cons.IH[OF split']) auto
    with False show ?thesis by simp
  next
    case True
    let ?b = "build_call h s sbt u"
    let ?p = "(slugId h k, push_task h s u (fst ?b))"
    have ok: "lookups_ok s sbt u" using Cons.prems(2) True by simp
    have b: "\<forall>ds. jget (snd ?b) ''dependencies'' = Some (JList ds) \<longrightarrow> set ds \<subseteq> JStr ` seen"
      using build_call_deps_seen[OF order _ True ok Cons.prems(3)] Cons.prems(1) by auto
    show ?thesis
    proof (cases "should_push s")
      case push: True
      have tg: "task_graph h s sbt (u # us) k = ?b # ?p # task_graph h s sbt us (Suc k)"
        using True push by (simp add: unit_calls_def build_call_def Let_def)
      have "deps_known (insert (fst ?p) (insert (fst ?b) seen)) (task_graph h s sbt us (Suc k))"
        using Cons.prems(2,3) by (intro Cons.IH[OF split']) auto
      moreover have "\<forall>ds. jget (snd ?p) ''dependencies'' = Some (JList ds) \<longrightarrow>
                       set ds \<subseteq> JStr ` insert (fst ?b) seen"
        by (simp add: push_task_def)
      ultimately show ?thesis unfolding tg using b by simp
    next
      case nopush: False
      have tg: "task_graph h s sbt (u # us) k = ?b # task_graph h s sbt us k"
        using True nopush by (simp add: unit_calls_def build_call_def Let_def)
      have "deps_known (insert (fst ?b) seen) (task_graph h s sbt us k)"
        using Cons.prems(2,3) by (intro Cons.IH[OF split']) auto
      then show ?thesis unfolding tg using b by simp
    qed
  qed
qed

lemma task_graph_push_after_build:
  "j < length (task_graph h s sbt xs k) \<Longrightarrow> is_push (snd (task_graph h s sbt xs k ! j)) \<Longrightarrow>
     0 < j \<and> is_build (snd (task_graph h s sbt xs k ! (j - 1))) \<and>
     jget (snd (task_graph h s sbt xs k ! j)) ''dependencies''
       = Some (JList [JStr (fst (task_graph h s sbt xs k ! (j - 1)))])"
proof (induction xs arbitrary: k j)
  case Nil
  then show ?case by simp
next
  case (Cons u us)
  show ?case
  proof (cases "dirty u")
    case False
    with Cons show ?thesis by simp
  next
    case True
    let ?b = "build_call h s sbt u"
    let ?p = "(slugId h k, push_task h s u (fst ?b))"
    show ?thesis
    proof (cases "should_push s")
      case push: True
      let ?tg = "task_graph h s sbt us (Suc k)"
      have tg: "task_graph h s sbt (u # us) k = ?b # ?p # ?tg"
        using True push by (simp add: unit_calls_def build_call_def Let_def)
      consider "j = 0" | "j = 1" | j' where "j = Suc (Suc j')" by (cases j rule: nat.exhaust; cases "j - 1") auto
      then show ?thesis
      proof cases
        case 1
        with Cons.prems show ?thesis unfolding tg by (simp add: build_call_def)
      next
        case 2
        then show ?thesis unfolding tg by (simp add: push_task_def build_call_def)
      next
        case 3
        with Cons.prems have "j' < length ?tg" "is_push (snd (?tg ! j'))"
          unfolding tg by simp_all
        from Cons.IH[OF this] obtain j'' where "j' = Suc j''"
          and "is_build (snd (?tg ! j''))"
          and "jget (snd (?tg ! j')) ''dependencies'' = Some (JList [JStr (fst (?tg ! j''))])"
          by (cases j') auto
        with 3 show ?thesis unfolding tg by simp
      qed
    next
      case nopush: False
      let ?tg = "task_graph h s sbt us k"
      have tg: "task_graph h s sbt (u # us) k = ?b # ?tg"
        using True nopush by (simp add: unit_calls_def build_call_def Let_def)
      show ?thesis
      proof (cases j)
        case 0
        with Cons.prems show ?thesis unfolding tg by (simp add: build_call_def)
      next
        case (Suc j')
        with Cons.prems have "j' < length ?tg" "is_push (snd (?tg ! j'))"
          unfolding tg by simp_all
        from Cons.IH[OF this] obtain j'' where "j' = Suc j''"
          and "is_build (snd (?tg ! j''))"
          and "jget (snd (?tg ! j')) ''dependencies'' = Some (JList [JStr (fst (?tg ! j''))])"
          by (cases j') auto
        with Suc show ?thesis unfolding tg by simp
      qed
    qed
  qed
qed

lemma run_earlier_accepted:
  assumes "i < j" and "j < length (calls (fst (create_tasks h s)))"
  shows "responses h (calls (fst (create_tasks h s))) ! i"
proof -
  obtain st out where run: "create_tasks h s = (st, out)" by (cases "create_tasks h s")
  from loop_responses[OF run[unfolded create_tasks_def]]
  have "responses h (calls st) = replicate (length (calls st) - 1) True @ [False] \<or>
        responses h (calls st) = replicate (length (calls st)) True"
    unfolding responses_def by (auto split: if_splits)
  with assms run show ?thesis by (auto simp: nth_append)
qed

subsection \<open>Failure of a submission\<close>

lemma main_unfold:
  "from_taskcluster l (github_action args) (args_github_event args) = Inr evt \<Longrightarrow>
   Services l evt = Inr svcs \<Longrightarrow>
   main h l args =
     (calls (fst (create_tasks h (mark_services_for_rebuild
             \<lparr>github_event = evt, now = args_now args, task_group = args_task_group args,
              docker_secret = docker_hub_secret args, push_branch = args_push_branch args,
              services = svcs\<rparr>))),
      case snd (create_tasks h (mark_services_for_rebuild
             \<lparr>github_event = evt, now = args_now args, task_group = args_task_group args,
              docker_secret = docker_hub_secret args, push_branch = args_push_branch args,
              services = svcs\<rparr>)) of Returned \<Rightarrow> Inr 0 | Raised e \<Rightarrow> Inl e)"
  unfolding main_def Let_def by (simp split: outcome.splits)

lemma main_no_calls:
  "isl (from_taskcluster l (github_action args) (args_github_event args)) \<Longrightarrow>
     fst (main h l args) = []"
  "from_taskcluster l (github_action args) (args_github_event args) = Inr evt \<Longrightarrow>
   isl (Services l evt) \<Longrightarrow> fst (main h l args) = []"
  unfolding main_def by (auto split: sum.splits)


lemma run_responses:
  "(snd (create_tasks h s) = Raised TaskclusterFailure \<longrightarrow>
      calls (fst (create_tasks h s)) \<noteq> [] \<and>
      responses h (calls (fst (create_tasks h s)))
        = replicate (length (calls (fst (create_tasks h s))) - 1) True @ [False]) \<and>
   (snd (create_tasks h s) \<noteq> Raised TaskclusterFailure \<longrightarrow>
      responses h (calls (fst (create_tasks h s)))
        = replicate (length (calls (fst (create_tasks h s)))) True)"
proof -
  obtain st out where run: "create_tasks h s = (st, out)" by (cases "create_tasks h s")
  from loop_responses[OF run[unfolded create_tasks_def]]
  show ?thesis unfolding run responses_def by (auto split: if_splits)
qed

lemma main_rejected:
  assumes rej: "responses h (fst (main h l args)) \<noteq> replicate (length (fst (main h l args))) True"
  shows "snd (main h l args) = Inl TaskclusterFailure \<and>
      cli_main h l args = (fst (main h l args), 1) \<and>
      responses h (fst (main h l args))
        = replicate (length (fst (main h l args)) - 1) True @ [False]"
proof -
  from rej have ne: "fst (main h l args) \<noteq> []" by (auto simp: responses_def)
  obtain evt where evt: "from_taskcluster l (github_action args) (args_github_event args) = Inr evt"
    using ne main_no_calls(1)[of l args h]
    by (cases "from_taskcluster l (github_action args) (args_github_event args)") auto
  obtain svcs where svcs: "Services l evt = Inr svcs"
    using ne main_no_calls(2)[OF evt, of h] by (cases "Services l evt") auto
  let ?s = "mark_services_for_rebuild
             \<lparr>github_event = evt, now = args_now args, task_group = args_task_group args,
              docker_secret = docker_hub_secret args, push_branch = args_push_branch args,
              services = svcs\<rparr>"
  note m = main_unfold[OF evt svcs, of h]
  have tr: "fst (main h l args) = calls (fst (create_tasks h ?s))" unfolding m by simp
  from rej run_responses[of h ?s] have out: "snd (create_tasks h ?s) = Raised TaskclusterFailure"
    unfolding tr by blast
  have r: "snd (main h l args) = Inl TaskclusterFailure" unfolding m by (simp add: out)
  have c: "cli_main h l args = (fst (main h l args), 1)"
    unfolding cli_main_def Let_def by (simp add: r)
  from run_responses[of h ?s] out
  have "responses h (fst (main h l args))
        = replicate (length (fst (main h l args)) - 1) True @ [False]"
    unfolding tr by blast
  with r c show ?thesis by blast
qed

lemma main_failure:
  assumes "from_taskcluster l (github_action args) (args_github_event args) = Inr evt"
    and "Services l evt = Inr svcs"
    and "s = mark_services_for_rebuild
          \<lparr>github_event = evt, now = args_now args, task_group = args_task_group args,
           docker_secret = docker_hub_secret args, push_branch = args_push_branch args,
           services = svcs\<rparr>"
    and "snd (create_tasks h s) = Raised TaskclusterFailure"
  shows "main h l args = (calls (fst (create_tasks h s)), Inl TaskclusterFailure) \<and>
      cli_main h l args = (calls (fst (create_tasks h s)), 1)"
proof -
  have m: "main h l args = (calls (fst (create_tasks h s)), Inl TaskclusterFailure)"
    unfolding main_unfold[OF assms(1,2), of h] assms(3)[symmetric] by (simp add: assms(4))
  then show ?thesis unfolding cli_main_def Let_def by simp
qed

text \<open>
  C1, as the code has it. When the queue rejects a creation call, that call is the last
  one the run attempts: every call before it was accepted, no call follows it, neither
  for a dependent of the failed task nor for an independent one, and the run ends in
  \<open>TaskclusterFailure\<close>. A run that does not end so had every call accepted. The
  failure leaves \<open>create_tasks\<close> and \<open>main\<close>: when \<open>create_tasks\<close> ends in
  \<open>TaskclusterFailure\<close> on the scheduler \<open>main\<close> builds, \<open>main\<close> ends in that
  exception with the same calls and the exit status is 1; and whenever a call of an
  invocation was rejected, it was the last call, \<open>main\<close> ends in
  \<open>TaskclusterFailure\<close> and the exit status is 1.
\<close>

theorem submission_failure_aborts:
  "(snd (create_tasks h s) = Raised TaskclusterFailure \<longrightarrow>
      calls (fst (create_tasks h s)) \<noteq> [] \<and>
      responses h (calls (fst (create_tasks h s)))
        = replicate (length (calls (fst (create_tasks h s))) - 1) True @ [False]) \<and>
   (snd (create_tasks h s) \<noteq> Raised TaskclusterFailure \<longrightarrow>
      responses h (calls (fst (create_tasks h s)))
        = replicate (length (calls (fst (create_tasks h s)))) True) \<and>
   (from_taskcluster l (github_action args) (args_github_event args) = Inr evt \<and>
    Services l evt = Inr svcs \<and>
    s = mark_services_for_rebuild
          \<lparr>github_event = evt, now = args_now args, task_group = args_task_group args,
           docker_secret = docker_hub_secret args, push_branch = args_push_branch args,
           services = svcs\<rparr> \<and>
    snd (create_tasks h s) = Raised TaskclusterFailure \<longrightarrow>
      main h l args = (calls (fst (create_tasks h s)), Inl TaskclusterFailure) \<and>
      cli_main h l args = (calls (fst (create_tasks h s)), 1)) \<and>
   (responses h (fst (main h l args)) \<noteq> replicate (length (fst (main h l args))) True \<longrightarrow>
      snd (main h l args) = Inl TaskclusterFailure \<and>
      cli_main h l args = (fst (main h l args), 1) \<and>
      responses h (fst (main h l args))
        = replicate (length (fst (main h l args)) - 1) True @ [False])"
  using run_responses[of h s] main_failure[of l args evt svcs s h] main_rejected[of h l args]
  by blast

theorem submission_failure_aborts_witness:
  "snd (create_tasks (ex_rejecting ''id2'')
          (ex_sched [ex_service ''a'' [] True, ex_service ''b'' [''a''] True]))
     = Raised TaskclusterFailure \<and>
   responses (ex_rejecting ''id2'')
     (calls (fst (create_tasks (ex_rejecting ''id2'')
          (ex_sched [ex_service ''a'' [] True, ex_service ''b'' [''a''] True]))))
     = [True, False] \<and>
   map fst (fst (main (ex_rejecting ''id2'') ex_loaders ex_args)) = [''id0'', ''id2''] \<and>
   responses (ex_rejecting ''id2'') (fst (main (ex_rejecting ''id2'') ex_loaders ex_args))
     = [True, False] \<and>
   snd (main (ex_rejecting ''id2'') ex_loaders ex_args) = Inl TaskclusterFailure \<and>
   cli_main (ex_rejecting ''id2'') ex_loaders ex_args
     = (fst (main (ex_rejecting ''id2'') ex_loaders ex_args), 1)"
proof -
  let ?h = "ex_rejecting ''id2''"
  let ?s = "ex_sched [ex_service ''a'' [] True, ex_service ''b'' [''a''] True]"
  let ?run = "create_tasks ?h ?s"
  let ?m = "main ?h ex_loaders ex_args"
  note T = submission_failure_aborts[of ?h ?s ex_loaders ex_args]
  have out: "snd ?run = Raised TaskclusterFailure"
    by (simp add: run_defs ex_defs str_nat.simps)
  have len: "length (calls (fst ?run)) = 2"
    by (simp add: run_defs ex_defs str_nat.simps)
  from T out len have 1: "responses ?h (calls (fst ?run)) = [True, False]" by simp
  have ids: "map fst (fst ?m) = [''id0'', ''id2'']"
    by (simp add: run_defs ex_defs str_nat.simps)
  from ids have "length (map fst (fst ?m)) = 2" by simp
  then have len2: "length (fst ?m) = 2" by simp
  from ids obtain c0 c1 where cs: "fst ?m = [c0, c1]" "fst c0 = ''id0''" "fst c1 = ''id2''"
    by (cases "fst ?m"; cases "tl (fst ?m)") auto
  have rej: "responses ?h (fst ?m) \<noteq> replicate (length (fst ?m)) True"
    unfolding cs(1) by (simp add: responses_def ex_defs cs(2,3))
  from T rej have 2: "snd ?m = Inl TaskclusterFailure"
    and 3: "cli_main ?h ex_loaders ex_args = (fst ?m, 1)"
    and 4: "responses ?h (fst ?m) = replicate (length (fst ?m) - 1) True @ [False]"
    by blast+
  from 4 len2 have 5: "responses ?h (fst ?m) = [True, False]" by simp
  from out 1 ids 5 2 3 show ?thesis by blast
qed

text \<open>
  C1 as stated fails: \<open>a\<close> and \<open>b\<close> are dirty and independent, the queue rejects
  the build task of \<open>a\<close> (\<open>id0\<close>), and the build task of \<open>b\<close> (\<open>id1\<close>, as
  the run against the accepting queue shows) is never attempted.
\<close>

theorem independent_branch_counterexample:
  "snd (create_tasks (ex_rejecting ''id0'')
          (ex_sched [ex_service ''a'' [] True, ex_service ''b'' [] True]))
     = Raised TaskclusterFailure \<and>
   map fst (calls (fst (create_tasks (ex_rejecting ''id0'')
          (ex_sched [ex_service ''a'' [] True, ex_service ''b'' [] True]))))
     = [''id0''] \<and>
   map fst (calls (fst (create_tasks ex_host
          (ex_sched [ex_service ''a'' [] True, ex_service ''b'' [] True]))))
     = [''id0'', ''id2'', ''id1'', ''id3'']"
  by (simp add: run_defs ex_defs str_nat.simps)

subsection \<open>The publish credential\<close>

text \<open>
  C3, as the code has it. The scheduler never checks \<open>docker_secret\<close>. When a push is
  due and the secret is \<open>None\<close>, a run on a well-formed catalog against a queue that
  accepts every call returns normally with a build task and a push task for every dirty
  service; each push task carries \<open>None\<close> as \<open>TASKCLUSTER_SECRET\<close> and the scope
  \<open>secrets:get:None\<close>.
\<close>

theorem missing_secret_not_checked:
  assumes "should_push s" and "docker_secret s = None"
    and "\<forall>past task_id task. createTask h past task_id task"
    and "catalog_ok (services s)"
  shows "snd (create_tasks h s) = Returned \<and>
         length (calls (fst (create_tasks h s))) = 2 * length (filter dirty (services s)) \<and>
         (\<forall>c\<in>set (calls (fst (create_tasks h s))). is_push (snd c) \<longrightarrow>
            jpath (snd c) [''payload'', ''env'', ''TASKCLUSTER_SECRET''] = Some JNull \<and>
            jget (snd c) ''scopes'' = Some (JList [JStr ''secrets:get:None'']))"
proof (intro conjI ballI impI)
  show r: "snd (create_tasks h s) = Returned"
    by (rule accepting_run_returns[OF assms(3,4)])
  show "length (calls (fst (create_tasks h s))) = 2 * length (filter dirty (services s))"
    using task_graph_pairs[OF assms(1)] by (simp add: run_Returned_calls[OF r])
next
  fix c assume c: "c \<in> set (calls (fst (create_tasks h s)))" and p: "is_push (snd c)"
  from run_calls_member[OF c] p obtain u tid bid where c_def: "c = (tid, push_task h s u bid)"
    by auto
  show "jpath (snd c) [''payload'', ''env'', ''TASKCLUSTER_SECRET''] = Some JNull"
    by (simp add: c_def push_task_def assms(2))
  show "jget (snd c) ''scopes'' = Some (JList [JStr ''secrets:get:None''])"
    by (simp add: c_def push_task_def assms(2))
qed

theorem missing_secret_not_checked_witness:
  "should_push ((ex_sched [ex_service ''a'' [] True])\<lparr>docker_secret := None\<rparr>) \<and>
   docker_secret ((ex_sched [ex_service ''a'' [] True])\<lparr>docker_secret := None\<rparr>) = None \<and>
   (\<forall>past task_id task. createTask ex_host past task_id task) \<and>
   catalog_ok (services ((ex_sched [ex_service ''a'' [] True])\<lparr>docker_secret := None\<rparr>)) \<and>
   snd (create_tasks ex_host ((ex_sched [ex_service ''a'' [] True])\<lparr>docker_secret := None\<rparr>))
     = Returned \<and>
   length (calls (fst (create_tasks ex_host
     ((ex_sched [ex_service ''a'' [] True])\<lparr>docker_secret := None\<rparr>)))) = 2"
proof -
  let ?s = "(ex_sched [ex_service ''a'' [] True])\<lparr>docker_secret := None\<rparr>"
  have 1: "should_push ?s" by (simp add: should_push_def ex_defs)
  have 2: "docker_secret ?s = None" by simp
  have 3: "\<forall>past task_id task. createTask ex_host past task_id task" by (simp add: ex_defs)
  have 4: "catalog_ok (services ?s)" by (simp add: catalog_ok_def ex_defs)
  from missing_secret_not_checked[OF 1 2 3 4] 1 2 3 4 show ?thesis by (simp add: ex_defs)
qed

text \<open>
  C3 as stated fails: a push is due, the secret is \<open>None\<close>, and the run returns
  after creating the build task \<open>id0\<close> and the push task \<open>id1\<close>.
\<close>

theorem missing_secret_counterexample:
  "should_push ((ex_sched [ex_service ''a'' [] True])\<lparr>docker_secret := None\<rparr>) \<and>
   docker_secret ((ex_sched [ex_service ''a'' [] True])\<lparr>docker_secret := None\<rparr>) = None \<and>
   snd (create_tasks ex_host ((ex_sched [ex_service ''a'' [] True])\<lparr>docker_secret := None\<rparr>))
     = Returned \<and>
   map fst (calls (fst (create_tasks ex_host
     ((ex_sched [ex_service ''a'' [] True])\<lparr>docker_secret := None\<rparr>)))) = [''id0'', ''id1'']"
  by (simp add: run_defs ex_defs str_nat.simps)

subsection \<open>When push tasks are created\<close>

text \<open>
  Only the branch decides whether push tasks are created: when the branch of the event
  differs from \<open>push_branch\<close> no call of the run is a push task, and when they are
  equal every dirty service of a run that returns gets a push task, whether or not the
  event is a pull request.
\<close>

lemma publish_decided_by_branch:
  "(branch (github_event s) \<noteq> Some (push_branch s) \<longrightarrow>
      (\<forall>c\<in>set (calls (fst (create_tasks h s))). \<not> is_push (snd c))) \<and>
   (branch (github_event s) = Some (push_branch s) \<and> snd (create_tasks h s) = Returned \<longrightarrow>
      length (filter (\<lambda>c. is_push (snd c)) (calls (fst (create_tasks h s))))
        = length (filter dirty (services s)))"
proof (intro conjI impI ballI)
  fix c assume "branch (github_event s) \<noteq> Some (push_branch s)"
    and "c \<in> set (calls (fst (create_tasks h s)))"
  with run_calls_member[of c h s] show "\<not> is_push (snd c)"
    by (auto simp: should_push_def)
next
  assume "branch (github_event s) = Some (push_branch s) \<and> snd (create_tasks h s) = Returned"
  then show "length (filter (\<lambda>c. is_push (snd c)) (calls (fst (create_tasks h s))))
        = length (filter dirty (services s))"
    by (simp add: run_Returned_calls task_graph_push_count should_push_def)
qed

lemma publish_decided_by_branch_example:
  "(branch ex_event \<noteq> Some ''release'' \<and>
    list_all (\<lambda>c. \<not> is_push (snd c)) (calls (fst (create_tasks ex_host
        ((ex_sched [ex_service ''a'' [] True])\<lparr>push_branch := ''release''\<rparr>))))) \<and>
   (branch (ex_event\<lparr>pull_request := Some 7\<rparr>) = Some ''master'' \<and>
    length (filter (\<lambda>c. is_push (snd c)) (calls (fst (create_tasks ex_host
        ((ex_sched [ex_service ''a'' [] True, ex_service ''b'' [] False])
           \<lparr>github_event := ex_event\<lparr>pull_request := Some 7\<rparr>\<rparr>))))) = 1)"
proof -
  let ?t = "(ex_sched [ex_service ''a'' [] True])\<lparr>push_branch := ''release''\<rparr>"
  let ?s = "(ex_sched [ex_service ''a'' [] True, ex_service ''b'' [] False])
              \<lparr>github_event := ex_event\<lparr>pull_request := Some 7\<rparr>\<rparr>"
  have n: "branch (github_event ?t) \<noteq> Some (push_branch ?t)" by (simp add: ex_defs)
  have p: "branch (github_event ?s) = Some (push_branch ?s)" by (simp add: ex_defs)
  have r: "snd (create_tasks ex_host ?s) = Returned" by (simp add: run_defs ex_defs)
  from publish_decided_by_branch[of ?t ex_host] n
  have "list_all (\<lambda>c. \<not> is_push (snd c)) (calls (fst (create_tasks ex_host ?t)))"
    unfolding list_all_iff by blast
  moreover from publish_decided_by_branch[of ?s ex_host] p r
  have "length (filter (\<lambda>c. is_push (snd c)) (calls (fst (create_tasks ex_host ?s))))
          = length (filter dirty (services ?s))" by blast
  then have "length (filter (\<lambda>c. is_push (snd c)) (calls (fst (create_tasks ex_host ?s)))) = 1"
    by (simp add: ex_defs)
  ultimately show ?thesis by (simp add: ex_defs)
qed

text \<open>
  C4. No push task is to be created for a pull-request event, and the help text of
  \<open>--push-branch\<close> in \<^verbatim>\<open>cli.py\<close> says so too (push to Docker Hub if a push
  event is on this branch). \<open>create_tasks\<close> compares the branch alone: for the
  pull-request event number 7 whose branch is \<open>master\<close>, with \<open>push_branch\<close> equal to
  \<open>master\<close> and one dirty service, the run returns after two calls and the second is
  a push task.
\<close>

theorem pull_request_event_publishes:
  "pull_request (github_event ((ex_sched [ex_service ''a'' [] True])
       \<lparr>github_event := ex_event\<lparr>pull_request := Some 7\<rparr>\<rparr>)) = Some 7 \<and>
   should_push ((ex_sched [ex_service ''a'' [] True])
       \<lparr>github_event := ex_event\<lparr>pull_request := Some 7\<rparr>\<rparr>) \<and>
   snd (create_tasks ex_host ((ex_sched [ex_service ''a'' [] True])
       \<lparr>github_event := ex_event\<lparr>pull_request := Some 7\<rparr>\<rparr>)) = Returned \<and>
   map fst (calls (fst (create_tasks ex_host ((ex_sched [ex_service ''a'' [] True])
       \<lparr>github_event := ex_event\<lparr>pull_request := Some 7\<rparr>\<rparr>)))) = [''id0'', ''id1''] \<and>
   is_push (snd (calls (fst (create_tasks ex_host ((ex_sched [ex_service ''a'' [] True])
       \<lparr>github_event := ex_event\<lparr>pull_request := Some 7\<rparr>\<rparr>))) ! 1))"
  by (simp add: run_defs ex_defs task_defs str_nat.simps)

subsection \<open>Build and push tasks of the dirty services\<close>

text \<open>
  C5. When a push is due and the run returns, its calls are, for each dirty service in
  turn, one build task of that service followed by one push task whose only dependency
  is the identifier of that build task, whose environment carries \<open>docker_secret\<close>
  and whose payload has no \<open>artifacts\<close>. When no push is due, no call of the run is a
  push task.
\<close>

theorem publish_nodes:
  "(should_push s \<and> snd (create_tasks h s) = Returned \<longrightarrow>
      length (calls (fst (create_tasks h s))) = 2 * length (filter dirty (services s)) \<and>
      (\<forall>i<length (filter dirty (services s)).
         is_build (snd (calls (fst (create_tasks h s)) ! (2 * i))) \<and>
         jpath (snd (calls (fst (create_tasks h s)) ! (2 * i))) [''payload'', ''env'', ''IMAGE_NAME'']
           = Some (JStr (name (filter dirty (services s) ! i))) \<and>
         is_push (snd (calls (fst (create_tasks h s)) ! (2 * i + 1))) \<and>
         jget (snd (calls (fst (create_tasks h s)) ! (2 * i + 1))) ''dependencies''
           = Some (JList [JStr (fst (calls (fst (create_tasks h s)) ! (2 * i)))]) \<and>
         jpath (snd (calls (fst (create_tasks h s)) ! (2 * i + 1)))
             [''payload'', ''env'', ''TASKCLUSTER_SECRET'']
           = Some (json_opt (docker_secret s)) \<and>
         jpath (snd (calls (fst (create_tasks h s)) ! (2 * i + 1))) [''payload'', ''artifacts'']
           = None)) \<and>
   (\<not> should_push s \<longrightarrow> (\<forall>c\<in>set (calls (fst (create_tasks h s))). \<not> is_push (snd c)))"
proof (intro conjI impI allI ballI)
  assume a: "should_push s \<and> snd (create_tasks h s) = Returned"
  note P = task_graph_pairs[of s h "service_build_tasks h s" "services s" "length (services s)"]
  from a show "length (calls (fst (create_tasks h s))) = 2 * length (filter dirty (services s))"
    using P by (simp add: run_Returned_calls)
  fix i assume i: "i < length (filter dirty (services s))"
  let ?D = "filter dirty (services s)"
  from a i P obtain deps df j where
    b: "calls (fst (create_tasks h s)) ! (2 * i) =
          (projr (getitem (service_build_tasks h s) (name (?D ! i))), build_task h s (?D ! i) deps df)"
    and p0: "calls (fst (create_tasks h s)) ! (2 * i + 1) =
          (slugId h j, push_task h s (?D ! i)
             (projr (getitem (service_build_tasks h s) (name (?D ! i)))))"
    unfolding run_Returned_calls[OF conjunct2[OF a]] by blast
  from p0 have p: "calls (fst (create_tasks h s)) ! Suc (2 * i) =
          (slugId h j, push_task h s (?D ! i)
             (projr (getitem (service_build_tasks h s) (name (?D ! i)))))"
    by simp
  show "is_build (snd (calls (fst (create_tasks h s)) ! (2 * i)))"
    by (simp add: b)
  show "jpath (snd (calls (fst (create_tasks h s)) ! (2 * i))) [''payload'', ''env'', ''IMAGE_NAME'']
           = Some (JStr (name (?D ! i)))"
    by (simp add: b build_task_def)
  show "is_push (snd (calls (fst (create_tasks h s)) ! (2 * i + 1)))"
    by (simp add: p)
  show "jget (snd (calls (fst (create_tasks h s)) ! (2 * i + 1))) ''dependencies''
           = Some (JList [JStr (fst (calls (fst (create_tasks h s)) ! (2 * i)))])"
    by (simp add: p b push_task_def)
  show "jpath (snd (calls (fst (create_tasks h s)) ! (2 * i + 1)))
             [''payload'', ''env'', ''TASKCLUSTER_SECRET'']
           = Some (json_opt (docker_secret s))"
    by (simp add: p push_task_def)
  show "jpath (snd (calls (fst (create_tasks h s)) ! (2 * i + 1))) [''payload'', ''artifacts'']
           = None"
    by (simp add: p push_task_def)
next
  fix c assume "\<not> should_push s" and "c \<in> set (calls (fst (create_tasks h s)))"
  with run_calls_member[of c h s] show "\<not> is_push (snd c)" by auto
qed

theorem publish_nodes_witness:
  "(should_push (ex_sched [ex_service ''a'' [] True, ex_service ''b'' [''a''] True]) \<and>
    snd (create_tasks ex_host (ex_sched [ex_service ''a'' [] True, ex_service ''b'' [''a''] True]))
      = Returned \<and>
    length (calls (fst (create_tasks ex_host
       (ex_sched [ex_service ''a'' [] True, ex_service ''b'' [''a''] True])))) = 4 \<and>
    jget (snd (calls (fst (create_tasks ex_host
       (ex_sched [ex_service ''a'' [] True, ex_service ''b'' [''a''] True]))) ! 3)) ''dependencies''
      = Some (JList [JStr ''id1''])) \<and>
   (\<not> should_push ((ex_sched [ex_service ''a'' [] True])\<lparr>push_branch := ''release''\<rparr>) \<and>
    list_all (\<lambda>c. \<not> is_push (snd c)) (calls (fst (create_tasks ex_host
        ((ex_sched [ex_service ''a'' [] True])\<lparr>push_branch := ''release''\<rparr>)))))"
proof -
  let ?s = "ex_sched [ex_service ''a'' [] True, ex_service ''b'' [''a''] True]"
  let ?t = "(ex_sched [ex_service ''a'' [] True])\<lparr>push_branch := ''release''\<rparr>"
  have p: "should_push ?s" by (simp add: should_push_def ex_defs)
  have r: "snd (create_tasks ex_host ?s) = Returned" by (simp add: run_defs ex_defs)
  have i: "1 < length (filter dirty (services ?s))" by (simp add: ex_defs)
  have f: "fst (calls (fst (create_tasks ex_host ?s)) ! 2) = ''id1''"
    by (simp add: run_defs ex_defs str_nat.simps)
  have n: "\<not> should_push ?t" by (simp add: should_push_def ex_defs)
  from publish_nodes[of ?s ex_host] p r
  have "length (calls (fst (create_tasks ex_host ?s))) = 2 * length (filter dirty (services ?s))"
    and "\<forall>i<length (filter dirty (services ?s)).
           jget (snd (calls (fst (create_tasks ex_host ?s)) ! (2 * i + 1))) ''dependencies''
             = Some (JList [JStr (fst (calls (fst (create_tasks ex_host ?s)) ! (2 * i)))])"
    by blast+
  with i f have "length (calls (fst (create_tasks ex_host ?s))) = 4"
    and "jget (snd (calls (fst (create_tasks ex_host ?s)) ! 3)) ''dependencies''
             = Some (JList [JStr ''id1''])"
    by (auto simp: ex_defs dest: spec[of _ 1])
  moreover from publish_nodes[of ?t ex_host] n
  have "list_all (\<lambda>c. \<not> is_push (snd c)) (calls (fst (create_tasks ex_host ?t)))"
    unfolding list_all_iff by blast
  ultimately show ?thesis using p r n by blast
qed

subsection \<open>Order of submission\<close>

text \<open>
  C2, as the code has it. The services are handled in their iteration order and are not
  sorted by dependency. When that order lists every dirty service after the dirty
  services it depends on, every dependency of every call attempted is the identifier of
  an earlier call that the queue accepted. In any run, a push task comes directly after
  the build task it depends on, and that build task was accepted.
\<close>

theorem dependencies_accepted_first:
  "(deps_first (services s) \<longrightarrow>
      (\<forall>j<length (calls (fst (create_tasks h s))). \<forall>ds d.
         jget (snd (calls (fst (create_tasks h s)) ! j)) ''dependencies'' = Some (JList ds) \<and>
         JStr d \<in> set ds \<longrightarrow>
           (\<exists>i<j. fst (calls (fst (create_tasks h s)) ! i) = d \<and>
                  responses h (calls (fst (create_tasks h s))) ! i))) \<and>
   (\<forall>j<length (calls (fst (create_tasks h s))).
      is_push (snd (calls (fst (create_tasks h s)) ! j)) \<longrightarrow>
        0 < j \<and> is_build (snd (calls (fst (create_tasks h s)) ! (j - 1))) \<and>
        jget (snd (calls (fst (create_tasks h s)) ! j)) ''dependencies''
          = Some (JList [JStr (fst (calls (fst (create_tasks h s)) ! (j - 1)))]) \<and>
        responses h (calls (fst (create_tasks h s))) ! (j - 1))"
proof -
  let ?cs = "calls (fst (create_tasks h s))"
  let ?sbt = "service_build_tasks h s"
  obtain st out where run: "create_tasks h s = (st, out)" by (cases "create_tasks h s")
  from loop_decompose[OF run[unfolded create_tasks_def]] obtain ys n where
    ys: "prefix ys (services s)" "\<forall>u\<in>set ys. dirty u \<longrightarrow> lookups_ok s ?sbt u"
    and cs: "?cs = take n (task_graph h s ?sbt ys (length (services s)))"
    using run by auto
  let ?tg = "task_graph h s ?sbt ys (length (services s))"
  have nth: "\<And>j. j < length ?cs \<Longrightarrow> ?cs ! j = ?tg ! j \<and> j < length ?tg"
    unfolding cs by simp
  have A: "deps_first (services s) \<longrightarrow>
      (\<forall>j<length ?cs. \<forall>ds d.
         jget (snd (?cs ! j)) ''dependencies'' = Some (JList ds) \<and> JStr d \<in> set ds \<longrightarrow>
           (\<exists>i<j. fst (?cs ! i) = d \<and> responses h ?cs ! i))"
  proof (intro impI allI)
    fix j ds d
    assume order: "deps_first (services s)" and j: "j < length ?cs"
      and d: "jget (snd (?cs ! j)) ''dependencies'' = Some (JList ds) \<and> JStr d \<in> set ds"
    from ys(1) obtain post where "services s = [] @ ys @ post" by (auto simp: prefix_def)
    from task_graph_deps_known[OF order this ys(2),
           where seen = "{}" and h = h and k = "length (services s)"]
    have "deps_known {} ?cs" unfolding cs by (simp add: deps_known_take)
    from deps_known_nth[OF this j] d obtain i where i: "i < j" "fst (?cs ! i) = d" by blast
    with run_earlier_accepted[OF i(1) j] show "\<exists>i<j. fst (?cs ! i) = d \<and> responses h ?cs ! i"
      by blast
  qed
  have B: "\<forall>j<length ?cs. is_push (snd (?cs ! j)) \<longrightarrow>
        0 < j \<and> is_build (snd (?cs ! (j - 1))) \<and>
        jget (snd (?cs ! j)) ''dependencies'' = Some (JList [JStr (fst (?cs ! (j - 1)))]) \<and>
        responses h ?cs ! (j - 1)"
  proof (intro allI impI)
    fix j assume j: "j < length ?cs" and p: "is_push (snd (?cs ! j))"
    from nth[OF j] p have "j < length ?tg" "is_push (snd (?tg ! j))" by simp_all
    from task_graph_push_after_build[OF this]
    have 0: "0 < j" and b: "is_build (snd (?tg ! (j - 1)))"
      and e: "jget (snd (?tg ! j)) ''dependencies'' = Some (JList [JStr (fst (?tg ! (j - 1)))])"
      by simp_all
    from 0 j have j1: "j - 1 < length ?cs" "j - 1 < j" by simp_all
    from run_earlier_accepted[OF j1(2) j] nth[OF j] nth[OF j1(1)] 0 b e
    show "0 < j \<and> is_build (snd (?cs ! (j - 1))) \<and>
        jget (snd (?cs ! j)) ''dependencies'' = Some (JList [JStr (fst (?cs ! (j - 1)))]) \<and>
        responses h ?cs ! (j - 1)"
      by simp
  qed
  from A B show ?thesis by blast
qed

theorem dependencies_accepted_first_witness:
  "deps_first (services (ex_sched [ex_service ''a'' [] True, ex_service ''b'' [''a''] True])) \<and>
   jget (snd (calls (fst (create_tasks ex_host
      (ex_sched [ex_service ''a'' [] True, ex_service ''b'' [''a''] True]))) ! 2)) ''dependencies''
     = Some (JList [JStr ''id0'']) \<and>
   (\<exists>i<2. fst (calls (fst (create_tasks ex_host
      (ex_sched [ex_service ''a'' [] True, ex_service ''b'' [''a''] True]))) ! i) = ''id0'' \<and>
      responses ex_host (calls (fst (create_tasks ex_host
      (ex_sched [ex_service ''a'' [] True, ex_service ''b'' [''a''] True])))) ! i) \<and>
   is_push (snd (calls (fst (create_tasks ex_host
      (ex_sched [ex_service ''a'' [] True, ex_service ''b'' [''a''] True]))) ! 1)) \<and>
   responses ex_host (calls (fst (create_tasks ex_host
      (ex_sched [ex_service ''a'' [] True, ex_service ''b'' [''a''] True])))) ! 0"
proof -
  let ?s = "ex_sched [ex_service ''a'' [] True, ex_service ''b'' [''a''] True]"
  let ?cs = "calls (fst (create_tasks ex_host ?s))"
  have o: "deps_first (services ?s)"
    by (simp add: deps_first_def ex_defs All_less_Suc)
  have len: "2 < length ?cs" "1 < length ?cs" by (simp_all add: run_defs ex_defs)
  have dep: "jget (snd (?cs ! 2)) ''dependencies'' = Some (JList [JStr ''id0''])"
    by (simp add: run_defs ex_defs task_defs str_nat.simps)
  have p: "is_push (snd (?cs ! 1))"
    by (simp add: run_defs ex_defs task_defs)
  note T = dependencies_accepted_first[of ?s ex_host]
  from T o len(1) dep
  have "\<exists>i<2. fst (?cs ! i) = ''id0'' \<and> responses ex_host ?cs ! i" by auto
  moreover from T len(2) p have "responses ex_host ?cs ! (1 - 1)" by blast
  ultimately show ?thesis using o dep p by simp
qed

text \<open>
  C2 as stated fails: \<open>a\<close> depends on \<open>b\<close>, both are dirty and \<open>a\<close> comes
  first. The first call creates the build task of \<open>a\<close>, which depends on \<open>id1\<close>;
  the task \<open>id1\<close> is created by the second call only.
\<close>

theorem unordered_catalog_counterexample:
  "map fst (calls (fst (create_tasks ex_host
      ((ex_sched [ex_service ''a'' [''b''] True, ex_service ''b'' [] True])
         \<lparr>push_branch := ''release''\<rparr>)))) = [''id0'', ''id1''] \<and>
   jget (snd (calls (fst (create_tasks ex_host
      ((ex_sched [ex_service ''a'' [''b''] True, ex_service ''b'' [] True])
         \<lparr>push_branch := ''release''\<rparr>))) ! 0)) ''dependencies''
     = Some (JList [JStr ''id1'']) \<and>
   responses ex_host (calls (fst (create_tasks ex_host
      ((ex_sched [ex_service ''a'' [''b''] True, ex_service ''b'' [] True])
         \<lparr>push_branch := ''release''\<rparr>)))) = [True, True]"
  by (simp add: run_defs ex_defs task_defs str_nat.simps responses_def)

subsection \<open>Build tasks and their dependencies\<close>

text \<open>
  C6. In a run that returns, on services with distinct names, the build tasks are in
  one-to-one correspondence with the dirty services, in order. The dependencies of the
  build task of a dirty service are exactly the identifiers of the build tasks of the
  dirty services among its \<open>service_deps\<close>, and \<open>LOAD_DEPS\<close> is \<open>1\<close> when there
  are any and \<open>0\<close> otherwise. Every dependency of every call is the identifier of a
  build task of the run, and every call is the build or push task of a dirty service:
  a service that is not dirty has no task and no task depends on one.
\<close>

theorem build_nodes_of_dirty_units:
  fixes h :: "'t host" and s :: "'t Scheduler"
  defines "cs \<equiv> calls (fst (create_tasks h s))"
  defines "B \<equiv> filter (\<lambda>c. is_build (snd c)) (calls (fst (create_tasks h s)))"
  defines "D \<equiv> filter dirty (services s)"
  assumes ret: "snd (create_tasks h s) = Returned"
    and dist: "distinct (map name (services s))"
  shows "length B = length D \<and>
    (\<forall>i<length D.
       jpath (snd (B ! i)) [''payload'', ''env'', ''IMAGE_NAME''] = Some (JStr (name (D ! i))) \<and>
       (\<exists>ds. jget (snd (B ! i)) ''dependencies'' = Some (JList ds) \<and>
             set ds = {JStr (fst (B ! j)) | j.
                         j < length D \<and> name (D ! j) \<in> set (service_deps (D ! i))} \<and>
             jpath (snd (B ! i)) [''payload'', ''env'', ''LOAD_DEPS'']
               = Some (JStr (if ds \<noteq> [] then ''1'' else ''0'')))) \<and>
    (\<forall>c\<in>set cs. \<forall>ds. jget (snd c) ''dependencies'' = Some (JList ds) \<longrightarrow>
       set ds \<subseteq> {JStr (fst b) | b. b \<in> set B}) \<and>
    (\<forall>c\<in>set cs. \<exists>u\<in>set D.
       jpath (snd c) [''metadata'', ''name''] =
         Some (JStr (''Orion '' @ name u @
                     (if is_build (snd c) then '' docker build'' else '' docker push''))))"
proof -
  let ?sbt = "service_build_tasks h s"
  let ?bc = "build_call h s ?sbt"
  have cs_eq: "cs = task_graph h s ?sbt (services s) (length (services s))"
    unfolding cs_def by (rule run_Returned_calls[OF ret])
  have B_eq: "B = map ?bc D"
    unfolding B_def D_def run_Returned_calls[OF ret] by (rule task_graph_builds)
  have D_set: "set D = {v \<in> set (services s). dirty v}" unfolding D_def by auto
  have Bn: "\<And>j. j < length D \<Longrightarrow> B ! j = ?bc (D ! j)" unfolding B_eq by simp
  have ids: "\<And>deps. {JStr (fst (?bc v)) | v.
                 v \<in> set (services s) \<and> dirty v \<and> name v \<in> set deps}
             = {JStr (fst (B ! j)) | j. j < length D \<and> name (D ! j) \<in> set deps}"
  proof -
    fix deps
    have "{JStr (fst (?bc v)) | v. v \<in> set (services s) \<and> dirty v \<and> name v \<in> set deps}
          = {JStr (fst (?bc v)) | v. v \<in> set D \<and> name v \<in> set deps}"
      unfolding D_set by auto
    also have "\<dots> = {JStr (fst (?bc (D ! j))) | j. j < length D \<and> name (D ! j) \<in> set deps}"
      by (auto simp: in_set_conv_nth)
    also have "\<dots> = {JStr (fst (B ! j)) | j. j < length D \<and> name (D ! j) \<in> set deps}"
      (is "?L = ?R")
    proof (intro set_eqI iffI)
      fix x assume "x \<in> ?L"
      then obtain j where j: "j < length D" "name (D ! j) \<in> set deps"
        and "x = JStr (fst (?bc (D ! j)))" by blast
      then have "x = JStr (fst (B ! j))" by (simp add: Bn)
      with j show "x \<in> ?R" by blast
    next
      fix x assume "x \<in> ?R"
      then obtain j where j: "j < length D" "name (D ! j) \<in> set deps"
        and "x = JStr (fst (B ! j))" by blast
      then have "x = JStr (fst (?bc (D ! j)))" by (simp add: Bn)
      with j show "x \<in> ?L" by blast
    qed
    finally show "{JStr (fst (?bc v)) | v.
                 v \<in> set (services s) \<and> dirty v \<and> name v \<in> set deps}
             = {JStr (fst (B ! j)) | j. j < length D \<and> name (D ! j) \<in> set deps}" .
  qed
  have ok: "\<And>u. u \<in> set D \<Longrightarrow> lookups_ok s ?sbt u"
    using run_Returned_ok[OF ret] unfolding D_set by auto
  have bcB: "\<And>v. v \<in> set (services s) \<Longrightarrow> dirty v \<Longrightarrow> ?bc v \<in> set B"
    unfolding B_eq by (simp add: D_set)
  have 1: "length B = length D" unfolding B_eq by simp
  have 2: "\<forall>i<length D.
       jpath (snd (B ! i)) [''payload'', ''env'', ''IMAGE_NAME''] = Some (JStr (name (D ! i))) \<and>
       (\<exists>ds. jget (snd (B ! i)) ''dependencies'' = Some (JList ds) \<and>
             set ds = {JStr (fst (B ! j)) | j.
                         j < length D \<and> name (D ! j) \<in> set (service_deps (D ! i))} \<and>
             jpath (snd (B ! i)) [''payload'', ''env'', ''LOAD_DEPS'']
               = Some (JStr (if ds \<noteq> [] then ''1'' else ''0'')))"
  proof (intro allI impI conjI)
    fix i assume i: "i < length D"
    then have Bi: "B ! i = ?bc (D ! i)" unfolding B_eq by simp
    show "jpath (snd (B ! i)) [''payload'', ''env'', ''IMAGE_NAME''] = Some (JStr (name (D ! i)))"
      unfolding Bi by (simp add: build_call_def build_task_def)
    from i have "D ! i \<in> set D" by simp
    from build_call_dependencies[OF ok[OF this] dist, of h]
    show "\<exists>ds. jget (snd (B ! i)) ''dependencies'' = Some (JList ds) \<and>
             set ds = {JStr (fst (B ! j)) | j.
                         j < length D \<and> name (D ! j) \<in> set (service_deps (D ! i))} \<and>
             jpath (snd (B ! i)) [''payload'', ''env'', ''LOAD_DEPS'']
               = Some (JStr (if ds \<noteq> [] then ''1'' else ''0''))"
      unfolding Bi ids .
  qed
  have 3: "\<forall>c\<in>set cs. \<forall>ds. jget (snd c) ''dependencies'' = Some (JList ds) \<longrightarrow>
       set ds \<subseteq> {JStr (fst b) | b. b \<in> set B}"
  proof (intro ballI allI impI)
    fix c ds assume c: "c \<in> set cs" and ds: "jget (snd c) ''dependencies'' = Some (JList ds)"
    from task_graph_member_call[OF c[unfolded cs_eq]] obtain u where
      u: "u \<in> set (services s)" "dirty u" and
      c_cases: "c = ?bc u \<or> (should_push s \<and> (\<exists>j. c = (slugId h j, push_task h s u (fst (?bc u)))))"
      by blast
    from u have uD: "u \<in> set D" unfolding D_set by simp
    from c_cases show "set ds \<subseteq> {JStr (fst b) | b. b \<in> set B}"
    proof
      assume c_def: "c = ?bc u"
      from build_call_dependencies[OF ok[OF uD] dist, of h] ds
      have "set ds = {JStr (fst (?bc v)) | v.
                       v \<in> set (services s) \<and> dirty v \<and> name v \<in> set (service_deps u)}"
        unfolding c_def by auto
      then show ?thesis using bcB by blast
    next
      assume "should_push s \<and> (\<exists>j. c = (slugId h j, push_task h s u (fst (?bc u))))"
      then obtain j where "c = (slugId h j, push_task h s u (fst (?bc u)))" by blast
      with ds have "ds = [JStr (fst (?bc u))]" by (simp add: push_task_def)
      with bcB[OF u] show ?thesis
        by (auto simp del: split_paired_Ex intro!: exI[of _ "?bc u"])
    qed
  qed
  have 4: "\<forall>c\<in>set cs. \<exists>u\<in>set D.
       jpath (snd c) [''metadata'', ''name''] =
         Some (JStr (''Orion '' @ name u @
                     (if is_build (snd c) then '' docker build'' else '' docker push'')))"
  proof
    fix c assume c: "c \<in> set cs"
    from task_graph_member_call[OF c[unfolded cs_eq]] obtain u where
      u: "u \<in> set (services s)" "dirty u" and
      c_cases: "c = ?bc u \<or> (should_push s \<and> (\<exists>j. c = (slugId h j, push_task h s u (fst (?bc u)))))"
      by blast
    from u have uD: "u \<in> set D" unfolding D_set by simp
    from c_cases have "jpath (snd c) [''metadata'', ''name''] =
         Some (JStr (''Orion '' @ name u @
                     (if is_build (snd c) then '' docker build'' else '' docker push'')))"
      by (auto simp: build_call_def build_task_def push_task_def is_build_def)
    with uD show "\<exists>u\<in>set D.
       jpath (snd c) [''metadata'', ''name''] =
         Some (JStr (''Orion '' @ name u @
                     (if is_build (snd c) then '' docker build'' else '' docker push'')))"
      by blast
  qed
  from 1 2 3 4 show ?thesis by blast
qed

theorem build_nodes_of_dirty_units_witness:
  "snd (create_tasks ex_host (ex_sched
      [ex_service ''a'' [] True, ex_service ''b'' [''a''] True, ex_service ''c'' [''a''] False]))
     = Returned \<and>
   distinct (map name (services (ex_sched
      [ex_service ''a'' [] True, ex_service ''b'' [''a''] True, ex_service ''c'' [''a''] False]))) \<and>
   length (filter (\<lambda>c. is_build (snd c)) (calls (fst (create_tasks ex_host (ex_sched
      [ex_service ''a'' [] True, ex_service ''b'' [''a''] True, ex_service ''c'' [''a''] False])))))
     = 2 \<and>
   jpath (snd (filter (\<lambda>c. is_build (snd c)) (calls (fst (create_tasks ex_host (ex_sched
      [ex_service ''a'' [] True, ex_service ''b'' [''a''] True, ex_service ''c'' [''a''] False]))))
      ! 1)) [''payload'', ''env'', ''IMAGE_NAME''] = Some (JStr ''b'')"
proof -
  let ?s = "ex_sched
      [ex_service ''a'' [] True, ex_service ''b'' [''a''] True, ex_service ''c'' [''a''] False]"
  have r: "snd (create_tasks ex_host ?s) = Returned" by (simp add: run_defs ex_defs)
  have d: "distinct (map name (services ?s))" by (simp add: ex_defs)
  have D: "filter dirty (services ?s) = [ex_service ''a'' [] True, ex_service ''b'' [''a''] True]"
    by (simp add: ex_defs)
  from build_nodes_of_dirty_units[OF r d]
  have "length (filter (\<lambda>c. is_build (snd c)) (calls (fst (create_tasks ex_host ?s))))
          = length (filter dirty (services ?s))"
    and "\<forall>i<length (filter dirty (services ?s)).
       jpath (snd (filter (\<lambda>c. is_build (snd c)) (calls (fst (create_tasks ex_host ?s))) ! i))
         [''payload'', ''env'', ''IMAGE_NAME''] = Some (JStr (name (filter dirty (services ?s) ! i)))"
    by blast+
  then have "length (filter (\<lambda>c. is_build (snd c)) (calls (fst (create_tasks ex_host ?s)))) = 2"
    and "jpath (snd (filter (\<lambda>c. is_build (snd c)) (calls (fst (create_tasks ex_host ?s))) ! 1))
         [''payload'', ''env'', ''IMAGE_NAME''] = Some (JStr ''b'')"
    unfolding D by (auto simp: ex_service_def dest: spec[of _ 1])
  with r d show ?thesis by blast
qed

subsection \<open>Deadline, expiry and routes of a build task\<close>

text \<open>
  C7. Every build task of a run has the deadline \<open>now + DEADLINE\<close>, belongs to a
  dirty service whose artifact expires at \<open>now + ARTIFACTS_EXPIRE\<close>, and has two
  routes: one by service name and commit, and one by service name and pull-request
  number for a pull request, by service name and branch otherwise.
\<close>

theorem build_payload_timing_and_routes:
  "\<forall>c\<in>set (calls (fst (create_tasks h s))). is_build (snd c) \<longrightarrow>
     jget (snd c) ''deadline'' = Some (JStr (stringDate h (add_timedelta h (now s) DEADLINE))) \<and>
     (\<exists>u\<in>set (services s). dirty u \<and>
        jpath (snd c) [''payload'', ''env'', ''IMAGE_NAME''] = Some (JStr (name u)) \<and>
        jpath (snd c) [''payload'', ''artifacts'', ''public/'' @ name u @ ''.tar'', ''expires'']
          = Some (JStr (stringDate h (add_relativedelta h (now s) ARTIFACTS_EXPIRE))) \<and>
        jget (snd c) ''routes'' = Some (JList [
          JStr (''index.project.fuzzing.orion.'' @ name u @ ''.rev.'' @ commit (github_event s)),
          JStr (case pull_request (github_event s) of
                  Some pr \<Rightarrow> ''index.project.fuzzing.orion.'' @ name u @ ''.pull_request.'' @ str_nat pr
                | None \<Rightarrow> ''index.project.fuzzing.orion.'' @ name u @ ''.''
                           @ fmt_opt (branch (github_event s)))]))"
proof (intro ballI impI)
  fix c assume c: "c \<in> set (calls (fst (create_tasks h s)))" and b: "is_build (snd c)"
  from run_calls_member[OF c] b obtain u deps df tid where
    u: "u \<in> set (services s)" "dirty u" and c_def: "c = (tid, build_task h s u deps df)"
    by auto
  have "jget (snd c) ''deadline'' = Some (JStr (stringDate h (add_timedelta h (now s) DEADLINE)))"
    by (simp add: c_def build_task_def)
  moreover have "jpath (snd c) [''payload'', ''env'', ''IMAGE_NAME''] = Some (JStr (name u))"
    by (simp add: c_def build_task_def)
  moreover have "jpath (snd c) [''payload'', ''artifacts'', ''public/'' @ name u @ ''.tar'', ''expires'']
          = Some (JStr (stringDate h (add_relativedelta h (now s) ARTIFACTS_EXPIRE)))"
    by (simp add: c_def build_task_def)
  moreover have "jget (snd c) ''routes'' = Some (JList [
          JStr (''index.project.fuzzing.orion.'' @ name u @ ''.rev.'' @ commit (github_event s)),
          JStr (case pull_request (github_event s) of
                  Some pr \<Rightarrow> ''index.project.fuzzing.orion.'' @ name u @ ''.pull_request.'' @ str_nat pr
                | None \<Rightarrow> ''index.project.fuzzing.orion.'' @ name u @ ''.''
                           @ fmt_opt (branch (github_event s)))])"
    by (simp add: c_def build_task_def build_index_def)
  ultimately show "jget (snd c) ''deadline'' = Some (JStr (stringDate h (add_timedelta h (now s) DEADLINE))) \<and>
     (\<exists>u\<in>set (services s). dirty u \<and>
        jpath (snd c) [''payload'', ''env'', ''IMAGE_NAME''] = Some (JStr (name u)) \<and>
        jpath (snd c) [''payload'', ''artifacts'', ''public/'' @ name u @ ''.tar'', ''expires'']
          = Some (JStr (stringDate h (add_relativedelta h (now s) ARTIFACTS_EXPIRE))) \<and>
        jget (snd c) ''routes'' = Some (JList [
          JStr (''index.project.fuzzing.orion.'' @ name u @ ''.rev.'' @ commit (github_event s)),
          JStr (case pull_request (github_event s) of
                  Some pr \<Rightarrow> ''index.project.fuzzing.orion.'' @ name u @ ''.pull_request.'' @ str_nat pr
                | None \<Rightarrow> ''index.project.fuzzing.orion.'' @ name u @ ''.''
                           @ fmt_opt (branch (github_event s)))]))"
    using u by blast
qed

theorem build_payload_timing_and_routes_witness:
  "is_build (snd (hd (calls (fst (create_tasks ex_host (ex_sched [ex_service ''a'' [] True])))))) \<and>
   jget (snd (hd (calls (fst (create_tasks ex_host (ex_sched [ex_service ''a'' [] True]))))))
     ''deadline'' = Some (JStr ''8200'') \<and>
   jget (snd (hd (calls (fst (create_tasks ex_host (ex_sched [ex_service ''a'' [] True]))))))
     ''routes'' = Some (JList [JStr ''index.project.fuzzing.orion.a.rev.c0ffee'',
                               JStr ''index.project.fuzzing.orion.a.master''])"
proof -
  let ?cs = "calls (fst (create_tasks ex_host (ex_sched [ex_service ''a'' [] True])))"
  have c: "hd ?cs \<in> set ?cs" by (simp add: run_defs ex_defs)
  have b: "is_build (snd (hd ?cs))" by (simp add: run_defs ex_defs task_defs)
  from build_payload_timing_and_routes[of ex_host "ex_sched [ex_service ''a'' [] True]",
         rule_format, OF c b] b
  show ?thesis by (simp add: ex_defs DEADLINE_def str_nat.simps)
qed

subsection \<open>Propagation of the dirty flag\<close>

lemma grown_length: "grown a b \<Longrightarrow> length b = length a"
  unfolding grown_def by (simp add: list_all2_lengthD)

lemma grown_nth:
  assumes "grown a b" and "i < length a"
  shows "name (b ! i) = name (a ! i)" and "context_dir (b ! i) = context_dir (a ! i)"
    and "service_deps (b ! i) = service_deps (a ! i)" and "dirty (a ! i) \<Longrightarrow> dirty (b ! i)"
  using list_all2_nthD[OF assms(1)[unfolded grown_def] assms(2)] by auto

lemma grown_names: "grown a b \<Longrightarrow> map name b = map name a"
  unfolding grown_def by (induction rule: list_all2_induct) auto

lemma grown_owners: "grown a b \<Longrightarrow> unitsOwningPath b p = unitsOwningPath a p"
  unfolding grown_def unitsOwningPath_def owns_path_def
  by (induction rule: list_all2_induct) auto

lemma grown_antisym:
  assumes "grown a b" and "grown b a"
  shows "b = a"
proof (rule ccontr)
  assume "b \<noteq> a"
  from grown_changed[OF assms(1) this] grown_clean_count[OF assms(2)] show False by simp
qed

lemma fold_fixed:
  assumes ext: "\<And>x c. grown c (g x c)" and fp: "fold g xs c = c"
  shows "\<forall>x\<in>set xs. g x c = c"
  using fp
proof (induction xs)
  case Nil
  show ?case by simp
next
  case (Cons x xs)
  from Cons.prems have f: "fold g xs (g x c) = c" by simp
  have "grown (g x c) (fold g xs (g x c))" by (rule grown_fold) (rule ext)
  with f have "grown (g x c) c" by simp
  from grown_antisym[OF ext this] have x: "g x c = c" by simp
  with f have "fold g xs c = c" by simp
  from Cons.IH[OF this] x show ?case by simp
qed

lemma fold_id: "\<forall>x\<in>set xs. f x c = c \<Longrightarrow> fold f xs c = c"
  by (induction xs) auto

lemma map_fixed: "map f xs = xs \<Longrightarrow> x \<in> set xs \<Longrightarrow> f x = x"
  by (induction xs) auto

lemma scan_fixed_closed:
  assumes "scan_pass c = c" and "u \<in> set c" and "v \<in> set c"
    and "dirty u" and "name u \<in> set (service_deps v)"
  shows "dirty v"
proof -
  let ?g = "\<lambda>n c. if is_dirty c n then mark_dependents n c else c"
  have "\<forall>n\<in>set (map name c). ?g n c = c"
    using assms(1) unfolding scan_pass_def
    by (intro fold_fixed) (simp_all add: grown_refl grown_mark_dependents)
  with assms(2) have "?g (name u) c = c" by simp
  moreover have "is_dirty c (name u)"
    using assms(2,4) by (auto simp: is_dirty_def list_ex_iff)
  ultimately have "mark_dependents (name u) c = c" by simp
  from map_fixed[OF this[unfolded mark_dependents_def] assms(3)] assms(5)
  have "v\<lparr>dirty := True\<rparr> = v" by simp
  then have "dirty (v\<lparr>dirty := True\<rparr>) = dirty v" by simp
  then show ?thesis by simp
qed

lemma propagate_fixed: "scan_pass (propagate cat) = propagate cat"
proof (induction cat rule: propagate.induct)
  case (1 cat)
  show ?case
  proof (cases "scan_pass cat = cat")
    case True
    then show ?thesis by (simp add: propagate.simps[of cat])
  next
    case False
    with 1 show ?thesis by (simp add: propagate.simps[of cat])
  qed
qed

lemma grown_propagate: "grown cat (propagate cat)"
proof (induction cat rule: propagate.induct)
  case (1 cat)
  show ?case
  proof (cases "scan_pass cat = cat")
    case True
    then show ?thesis by (simp add: propagate.simps[of cat] grown_refl)
  next
    case False
    with 1 have "grown (scan_pass cat) (propagate (scan_pass cat))" by simp
    with grown_scan_pass[of cat] have "grown cat (propagate (scan_pass cat))"
      by (rule grown_trans)
    with False show ?thesis by (simp add: propagate.simps[of cat])
  qed
qed

lemma grown_mark_changed_dirty: "grown cat (mark_changed_dirty cat paths)"
  unfolding mark_changed_dirty_def
  by (rule grown_trans[OF grown_mark_owners grown_propagate])

lemma set_dirty_nth:
  "i < length c \<Longrightarrow> name (c ! i) \<in> set ns \<Longrightarrow> dirty (set_dirty ns c ! i)"
  by (simp add: set_dirty_def)

lemma mark_owners_named:
  "p \<in> set paths \<Longrightarrow> i < length cat \<Longrightarrow> name (cat ! i) \<in> set (unitsOwningPath cat p) \<Longrightarrow>
     dirty (mark_owners cat paths ! i)"
proof (induction paths arbitrary: cat)
  case Nil
  then show ?case by simp
next
  case (Cons q ps)
  let ?c1 = "set_dirty (unitsOwningPath cat q) cat"
  have g1: "grown cat ?c1" by (rule grown_set_dirty)
  have eq: "mark_owners cat (q # ps) = mark_owners ?c1 ps" by (simp add: mark_owners_def)
  have i1: "i < length ?c1" using Cons.prems(2) grown_length[OF g1] by simp
  show ?case
  proof (cases "p = q")
    case True
    with Cons.prems have "dirty (?c1 ! i)" by (simp add: set_dirty_nth)
    with grown_nth(4)[OF grown_mark_owners i1] show ?thesis unfolding eq by simp
  next
    case False
    with Cons.prems(1) have "p \<in> set ps" by simp
    moreover have "name (?c1 ! i) \<in> set (unitsOwningPath ?c1 p)"
      using Cons.prems(2,3) grown_nth(1)[OF g1] grown_owners[OF g1] by simp
    ultimately show ?thesis unfolding eq using i1 by (intro Cons.IH)
  qed
qed

lemma mark_changed_dirty_named:
  assumes "p \<in> set paths" and "i < length cat"
    and "name (cat ! i) \<in> set (unitsOwningPath cat p)"
  shows "dirty (mark_changed_dirty cat paths ! i)"
proof -
  have "i < length (mark_owners cat paths)"
    using assms(2) grown_length[OF grown_mark_owners] by simp
  from grown_nth(4)[OF grown_propagate this] mark_owners_named[OF assms]
  show ?thesis unfolding mark_changed_dirty_def by simp
qed

lemma set_dirty_id:
  "\<forall>u\<in>set c. name u \<in> set ns \<longrightarrow> dirty u \<Longrightarrow> set_dirty ns c = c"
  unfolding set_dirty_def by (induction c) auto

lemma mark_changed_dirty_idem:
  "mark_changed_dirty (mark_changed_dirty cat paths) paths = mark_changed_dirty cat paths"
proof -
  let ?c = "mark_changed_dirty cat paths"
  have g: "grown cat ?c" by (rule grown_mark_changed_dirty)
  have "\<forall>p\<in>set paths. set_dirty (unitsOwningPath ?c p) ?c = ?c"
  proof
    fix p assume p: "p \<in> set paths"
    show "set_dirty (unitsOwningPath ?c p) ?c = ?c"
    proof (rule set_dirty_id, intro ballI impI)
      fix u assume "u \<in> set ?c" and n: "name u \<in> set (unitsOwningPath ?c p)"
      then obtain i where i: "i < length ?c" "?c ! i = u" by (auto simp: in_set_conv_nth)
      then have i': "i < length cat" using grown_length[OF g] by simp
      have "name (cat ! i) \<in> set (unitsOwningPath cat p)"
        using n i(2) grown_nth(1)[OF g i'] grown_owners[OF g] by simp
      from mark_changed_dirty_named[OF p i' this] i(2) show "dirty u" by simp
    qed
  qed
  then have "mark_owners ?c paths = ?c" unfolding mark_owners_def by (rule fold_id)
  moreover have "scan_pass ?c = ?c" unfolding mark_changed_dirty_def by (rule propagate_fixed)
  then have "propagate ?c = ?c" by (simp add: propagate.simps[of ?c])
  ultimately show ?thesis by (simp add: mark_changed_dirty_def[of ?c])
qed

lemma closed_trancl:
  assumes fixed: "scan_pass c = c"
    and path: "(v, u) \<in> (depends_on c)\<^sup>+"
  shows "dirty u \<longrightarrow> dirty v"
  using path
proof (induction rule: trancl_induct)
  case (base k)
  then have "v \<in> set c" "k \<in> set c" "name k \<in> set (service_deps v)"
    by (simp_all add: depends_on_def)
  with scan_fixed_closed[OF fixed, of k v] show ?case by blast
next
  case (step k l)
  from step.hyps(2) have "k \<in> set c" "l \<in> set c" "name l \<in> set (service_deps k)"
    by (simp_all add: depends_on_def)
  with scan_fixed_closed[OF fixed, of l k] have "dirty l \<longrightarrow> dirty k" by blast
  with step.IH show ?case by blast
qed

text \<open>
  C9, for \<open>mark_changed_dirty\<close> as the specification describes it. After the
  propagation, every unit whose build context is a prefix of a changed path is dirty,
  every unit that depends on a dirty unit through a chain of dependencies is dirty, and
  propagating again with the same paths changes nothing. The catalog keeps its units:
  a unit is as before or has its dirty flag set.
\<close>

theorem propagation_fixed_point:
  "(\<forall>i<length cat. (\<exists>p\<in>set paths. prefix (context_dir (cat ! i)) p) \<longrightarrow>
       dirty (mark_changed_dirty cat paths ! i)) \<and>
   (\<forall>u v. (v, u) \<in> (depends_on (mark_changed_dirty cat paths))\<^sup>+ \<and> dirty u \<longrightarrow> dirty v) \<and>
   mark_changed_dirty (mark_changed_dirty cat paths) paths = mark_changed_dirty cat paths \<and>
   length (mark_changed_dirty cat paths) = length cat \<and>
   (\<forall>i<length cat. mark_changed_dirty cat paths ! i = cat ! i \<or>
                    mark_changed_dirty cat paths ! i = (cat ! i)\<lparr>dirty := True\<rparr>)"
proof (intro conjI allI impI ballI)
  let ?c = "mark_changed_dirty cat paths"
  have g: "grown cat ?c" by (rule grown_mark_changed_dirty)
  show "length ?c = length cat" by (rule grown_length[OF g])
  show "mark_changed_dirty ?c paths = ?c" by (rule mark_changed_dirty_idem)
  {
    fix i assume i: "i < length cat" and "\<exists>p\<in>set paths. prefix (context_dir (cat ! i)) p"
    then obtain p where p: "p \<in> set paths" "prefix (context_dir (cat ! i)) p" by blast
    from i p(2) have "name (cat ! i) \<in> set (unitsOwningPath cat p)"
      by (auto simp: unitsOwningPath_def owns_path_def)
    from mark_changed_dirty_named[OF p(1) i this] show "dirty (?c ! i)" .
  }
  {
    fix i assume "i < length cat"
    from list_all2_nthD[OF g[unfolded grown_def] this]
    show "?c ! i = cat ! i \<or> ?c ! i = (cat ! i)\<lparr>dirty := True\<rparr>" by auto
  }
  {
    fix u v assume h: "(v, u) \<in> (depends_on ?c)\<^sup>+ \<and> dirty u"
    have fixed: "scan_pass ?c = ?c" unfolding mark_changed_dirty_def by (rule propagate_fixed)
    from closed_trancl[OF fixed conjunct1[OF h]] h show "dirty v" by blast
  }
qed

theorem propagation_fixed_point_witness:
  "(\<exists>p\<in>set [[''services'', ''a'', ''setup.sh'']]. prefix (context_dir (ex_chain ! 0)) p) \<and>
   length (mark_changed_dirty ex_chain [[''services'', ''a'', ''setup.sh'']]) = 3 \<and>
   dirty (mark_changed_dirty ex_chain [[''services'', ''a'', ''setup.sh'']] ! 0) \<and>
   dirty (mark_changed_dirty ex_chain [[''services'', ''a'', ''setup.sh'']] ! 1) \<and>
   dirty (mark_changed_dirty ex_chain [[''services'', ''a'', ''setup.sh'']] ! 2) \<and>
   mark_changed_dirty (mark_changed_dirty ex_chain [[''services'', ''a'', ''setup.sh'']])
       [[''services'', ''a'', ''setup.sh'']]
     = mark_changed_dirty ex_chain [[''services'', ''a'', ''setup.sh'']]"
proof -
  let ?paths = "[[''services'', ''a'', ''setup.sh'']]"
  let ?c = "mark_changed_dirty ex_chain ?paths"
  note T = propagation_fixed_point[of ex_chain ?paths]
  have len: "length ex_chain = 3" by (simp add: ex_chain_def)
  have own: "\<exists>p\<in>set ?paths. prefix (context_dir (ex_chain ! 0)) p"
    by (simp add: ex_chain_def ex_service_def)
  from T len have clen: "length ?c = 3" by simp
  from T own len have d0: "dirty (?c ! 0)" by simp
  from T len have flags: "\<And>i. i < 3 \<Longrightarrow>
      ?c ! i = ex_chain ! i \<or> ?c ! i = (ex_chain ! i)\<lparr>dirty := True\<rparr>" by simp
  have n0: "name (?c ! 0) = ''a''"
    using flags[of 0] by (auto simp: ex_chain_def ex_service_def)
  have s1: "service_deps (?c ! 1) = [''a'']" and n1: "name (?c ! 1) = ''b''"
    using flags[of 1] by (auto simp: ex_chain_def ex_service_def)
  have s2: "service_deps (?c ! 2) = [''b'']"
    using flags[of 2] by (auto simp: ex_chain_def ex_service_def)
  have mem: "?c ! 0 \<in> set ?c" "?c ! 1 \<in> set ?c" "?c ! 2 \<in> set ?c"
    using clen by simp_all
  have e10: "(?c ! 1, ?c ! 0) \<in> depends_on ?c"
    using mem n0 s1 by (simp add: depends_on_def)
  have e21: "(?c ! 2, ?c ! 1) \<in> depends_on ?c"
    using mem n1 s2 by (simp add: depends_on_def)
  from e10 have t10: "(?c ! 1, ?c ! 0) \<in> (depends_on ?c)\<^sup>+" by (rule r_into_trancl)
  from e21 t10 have t20: "(?c ! 2, ?c ! 0) \<in> (depends_on ?c)\<^sup>+" by (rule trancl_into_trancl2)
  from T t10 d0 have d1: "dirty (?c ! 1)" by blast
  from T t20 d0 have d2: "dirty (?c ! 2)" by blast
  from T have "mark_changed_dirty ?c ?paths = ?c" by blast
  with own clen d0 d1 d2 show ?thesis by blast
qed

subsection \<open>The force-rebuild marker\<close>

lemma str_contains_sublist: "str_contains needle hay = sublist needle hay"
  by (induction hay) (simp_all add: sublist_Cons_right)

lemma contains_marker:
  "str_contains ''/force-rebuild'' m \<longleftrightarrow> (\<exists>pre post. m = pre @ ''/force-rebuild'' @ post)"
  unfolding str_contains_sublist sublist_def ..

text \<open>
  C8. When the commit message contains \<open>/force-rebuild\<close>, every service is marked
  dirty and nothing else changes, whatever the changed paths are; otherwise the dirty
  flags are those \<open>mark_changed_dirty\<close> computes from the changed paths.
\<close>

theorem force_rebuild_marks_all:
  "((\<exists>pre post. commit_message (github_event s) = pre @ ''/force-rebuild'' @ post) \<longrightarrow>
      mark_services_for_rebuild s = s\<lparr>services := map (\<lambda>u. u\<lparr>dirty := True\<rparr>) (services s)\<rparr> \<and>
      list_all dirty (services (mark_services_for_rebuild s)) \<and>
      (\<forall>ps. services (mark_services_for_rebuild
                 (s\<lparr>github_event := (github_event s)\<lparr>list_changed_paths := ps\<rparr>\<rparr>))
            = services (mark_services_for_rebuild s))) \<and>
   (\<not> (\<exists>pre post. commit_message (github_event s) = pre @ ''/force-rebuild'' @ post) \<longrightarrow>
      mark_services_for_rebuild s =
        s\<lparr>services := mark_changed_dirty (services s) (list_changed_paths (github_event s))\<rparr>)"
  unfolding contains_marker[symmetric]
  by (simp add: mark_services_for_rebuild_def mark_all_dirty_def list_all_iff)

theorem force_rebuild_marks_all_witness:
  "(\<exists>pre post. ''rebuild all /force-rebuild'' = pre @ ''/force-rebuild'' @ post) \<and>
   map dirty (services (mark_services_for_rebuild
     ((ex_sched [ex_service ''a'' [] False, ex_service ''b'' [] False])
        \<lparr>github_event := ex_event\<lparr>commit_message := ''rebuild all /force-rebuild''\<rparr>\<rparr>)))
     = [True, True]"
proof -
  let ?s = "(ex_sched [ex_service ''a'' [] False, ex_service ''b'' [] False])
              \<lparr>github_event := ex_event\<lparr>commit_message := ''rebuild all /force-rebuild''\<rparr>\<rparr>"
  have "''rebuild all /force-rebuild'' = ''rebuild all '' @ ''/force-rebuild'' @ []" by simp
  then have m: "\<exists>pre post. ''rebuild all /force-rebuild'' = pre @ ''/force-rebuild'' @ post"
    by blast
  then have "\<exists>pre post. commit_message (github_event ?s) = pre @ ''/force-rebuild'' @ post"
    by (simp add: ex_defs)
  with force_rebuild_marks_all[of ?s]
  have "mark_services_for_rebuild ?s = ?s\<lparr>services := map (\<lambda>u. u\<lparr>dirty := True\<rparr>) (services ?s)\<rparr>"
    by blast
  then show ?thesis using m by (simp add: ex_defs)
qed

subsection \<open>The dry-run option\<close>

text \<open>
  C10. \<open>Scheduler.main\<close> never reads \<open>dry_run\<close>: two invocations that differ only
  in that flag attempt the same creation calls and end with the same exit status.
\<close>

theorem dry_run_ignored:
  "cli_main h l (args\<lparr>dry_run := b\<rparr>) = cli_main h l args"
  by (simp add: cli_main_def main_def cong: sum.case_cong)

theorem dry_run_ignored_witness:
  "map fst (fst (cli_main ex_host ex_loaders (ex_args\<lparr>dry_run := True\<rparr>)))
     = [''id0'', ''id2'', ''id1'', ''id3''] \<and>
   snd (cli_main ex_host ex_loaders (ex_args\<lparr>dry_run := True\<rparr>)) = 0"
proof -
  have "map fst (fst (cli_main ex_host ex_loaders ex_args)) = [''id0'', ''id2'', ''id1'', ''id3''] \<and>
        snd (cli_main ex_host ex_loaders ex_args) = 0"
    by (simp add: run_defs ex_defs str_nat.simps)
  then show ?thesis
    using dry_run_ignored[of ex_host ex_loaders True ex_args] by simp
qed

end
